theory Spec2Isabelle
  imports Main "HOL-Library.Log_Nat" "HOL-Library.Multiset"
begin

section \<open>Python values used by the usage tracker\<close>

subsection \<open>Binary64 floats\<close>

text \<open>
  \<^verbatim>\<open>cost_usd\<close> is a Python \<^verbatim>\<open>float\<close>, an IEEE 754 binary64 number. Every finite
  binary64 number is an integer multiple of \<open>2\<^sup>-\<^sup>1\<^sup>0\<^sup>7\<^sup>4\<close>, so a finite float is
  represented by that integer: \<open>Finite k\<close> stands for \<open>k * 2\<^sup>-\<^sup>1\<^sup>0\<^sup>7\<^sup>4\<close>. The two
  zeros are identified, as Python's \<^verbatim>\<open>==\<close> identifies them.
\<close>

datatype pyfloat = Finite int | Inf bool | NaN

text \<open>
  Rounding of an exact value (in units of \<open>2\<^sup>-\<^sup>1\<^sup>0\<^sup>7\<^sup>4\<close>) to binary64: at most 53
  significant bits are kept, ties go to the even significand, and a rounded magnitude
  of \<open>2\<^sup>1\<^sup>0\<^sup>2\<^sup>4\<close> or more (\<open>float_overflow\<close> units) overflows to an infinity
  (\<open>Inf True\<close> is the negative one).
\<close>

definition float_overflow :: int where
  "float_overflow = 2 ^ 2098"

definition round_to_double :: "int \<Rightarrow> pyfloat" where
  "round_to_double n =
     (let a = \<bar>n\<bar>; s = nat (bitlen a - 53) in
      if s = 0 then Finite n
      else
        let q = a div 2 ^ s;
            r = a mod 2 ^ s;
            h = 2 ^ (s - 1);
            q' = (if h < r \<or> (r = h \<and> odd q) then q + 1 else q);
            v = q' * 2 ^ s
        in if float_overflow \<le> v then Inf (n < 0) else Finite (sgn n * v))"

text \<open>A \<open>Finite k\<close> is a float only if \<open>k\<close> needs no rounding.\<close>

definition is_float :: "pyfloat \<Rightarrow> bool" where
  "is_float x = (case x of Finite k \<Rightarrow> round_to_double k = Finite k | _ \<Rightarrow> True)"

text \<open>\<^verbatim>\<open>float.__add__\<close>: the exact sum, correctly rounded.\<close>

fun float_add :: "pyfloat \<Rightarrow> pyfloat \<Rightarrow> pyfloat" where
  "float_add NaN _ = NaN"
| "float_add _ NaN = NaN"
| "float_add (Inf a) (Inf b) = (if a = b then Inf a else NaN)"
| "float_add (Inf a) (Finite _) = Inf a"
| "float_add (Finite _) (Inf b) = Inf b"
| "float_add (Finite a) (Finite b) = round_to_double (a + b)"

text \<open>\<^verbatim>\<open>float.__eq__\<close>: a NaN is equal to nothing, itself included.\<close>

definition float_eq :: "pyfloat \<Rightarrow> pyfloat \<Rightarrow> bool" where
  "float_eq x y = (x \<noteq> NaN \<and> y \<noteq> NaN \<and> x = y)"

subsection \<open>UsageData\<close>

record UsageData =
  input_tokens :: int
  output_tokens :: int
  total_tokens :: int
  cost_usd :: pyfloat

text \<open>
  The dataclass constructor: every field is a keyword argument with a default
  (\<open>None\<close> is an argument left out).
\<close>

definition UsageData_init ::
  "int option \<Rightarrow> int option \<Rightarrow> int option \<Rightarrow> pyfloat option \<Rightarrow> UsageData" where
  "UsageData_init i out t c =
     \<lparr>input_tokens = (case i of None \<Rightarrow> 0 | Some v \<Rightarrow> v),
      output_tokens = (case out of None \<Rightarrow> 0 | Some v \<Rightarrow> v),
      total_tokens = (case t of None \<Rightarrow> 0 | Some v \<Rightarrow> v),
      cost_usd = (case c of None \<Rightarrow> Finite 0 | Some v \<Rightarrow> v)\<rparr>"

text \<open>\<^verbatim>\<open>UsageData.__add__\<close>\<close>

definition UsageData_add :: "UsageData \<Rightarrow> UsageData \<Rightarrow> UsageData" where
  "UsageData_add self other =
     \<lparr>input_tokens = input_tokens self + input_tokens other,
      output_tokens = output_tokens self + output_tokens other,
      total_tokens = total_tokens self + total_tokens other,
      cost_usd = float_add (cost_usd self) (cost_usd other)\<rparr>"

text \<open>The \<^verbatim>\<open>__eq__\<close> that \<^verbatim>\<open>@dataclass\<close> generates: the fields compared in order.\<close>

definition UsageData_eq :: "UsageData \<Rightarrow> UsageData \<Rightarrow> bool" where
  "UsageData_eq x y =
     (input_tokens x = input_tokens y \<and> output_tokens x = output_tokens y \<and>
      total_tokens x = total_tokens y \<and> float_eq (cost_usd x) (cost_usd y))"

text \<open>
  \<open>double m e\<close> is the float \<open>m * 2\<^sup>e\<close>, for \<open>- 1074 \<le> e\<close>; for instance \<open>0.1\<close> is
  \<open>double 7205759403792794 (- 56)\<close> (\<^verbatim>\<open>0x1.999999999999ap-4\<close>).
\<close>

definition double :: "int \<Rightarrow> int \<Rightarrow> pyfloat" where
  "double m e = Finite (m * 2 ^ nat (e + 1074))"

section \<open>The aggregation engine\<close>

subsection \<open>Report rows\<close>

text \<open>
  The rows are the JSON objects of the usage and cost reports. A field is \<open>None\<close> when
  its key is absent from the object (for \<^verbatim>\<open>api_key_id\<close> also when it is \<^verbatim>\<open>null\<close>), token
  counts are Python integers, and \<^verbatim>\<open>amount\<close> is the value that \<^verbatim>\<open>float(...)\<close> makes of the
  field. Strings are ASCII.
\<close>

record cache_creation_obj =
  ephemeral_1h_input_tokens :: "int option"
  ephemeral_5m_input_tokens :: "int option"

record usage_item =
  item_model :: "string option"
  item_api_key_id :: "string option"
  item_uncached_input_tokens :: "int option"
  item_cache_read_input_tokens :: "int option"
  item_cache_creation :: "cache_creation_obj option"
  item_output_tokens :: "int option"

record usage_bucket =
  results :: "usage_item list option"

record cost_item =
  amount :: "pyfloat option"

record cost_bucket =
  cost_results :: "cost_item list option"

text \<open>\<^verbatim>\<open>d.get(key, default)\<close>\<close>

definition dict_get :: "'a option \<Rightarrow> 'a \<Rightarrow> 'a" where
  "dict_get v d = (case v of None \<Rightarrow> d | Some x \<Rightarrow> x)"

subsection \<open>Friendly model names\<close>

definition ascii_lower :: "char \<Rightarrow> char" where
  "ascii_lower c =
     (case map_of (zip ''ABCDEFGHIJKLMNOPQRSTUVWXYZ'' ''abcdefghijklmnopqrstuvwxyz'') c of
        None \<Rightarrow> c | Some l \<Rightarrow> l)"

definition lower :: "string \<Rightarrow> string" where
  "lower s = map ascii_lower s"

fun startswith :: "string \<Rightarrow> string \<Rightarrow> bool" where
  "startswith s [] = True"
| "startswith [] (p # ps) = False"
| "startswith (c # cs) (p # ps) = (c = p \<and> startswith cs ps)"

text \<open>\<^verbatim>\<open>sub in s\<close>\<close>

fun str_in :: "string \<Rightarrow> string \<Rightarrow> bool" where
  "str_in sub [] = (sub = [])"
| "str_in sub (c # cs) = (startswith (c # cs) sub \<or> str_in sub cs)"

definition friendly_model_name :: "string \<Rightarrow> string" where
  "friendly_model_name model =
     (if str_in ''opus'' (lower model) then ''Opus''
      else if str_in ''sonnet'' (lower model) then ''Sonnet''
      else if str_in ''haiku'' (lower model) then ''Haiku''
      else model)"

subsection \<open>Summaries\<close>

record ModelUsage =
  model :: string
  usage :: UsageData

record ApiKeyUsage =
  key_id :: string
  key_hint :: string
  usage :: UsageData

record report =
  total :: UsageData
  by_model :: "ModelUsage list"
  by_key :: "ApiKeyUsage list"

subsection \<open>Running totals\<close>

text \<open>
  \<^verbatim>\<open>defaultdict(lambda: {"input": 0, "output": 0})\<close>: a dictionary keeps its keys in the
  order of their first insertion, so it is a list of pairs with distinct keys.
  \<open>totals_add k i out\<close> is \<^verbatim>\<open>d[k]["input"] += i; d[k]["output"] += out\<close>; the fields
  \<open>tokens_input\<close> and \<open>tokens_output\<close> are the keys \<^verbatim>\<open>"input"\<close> and \<^verbatim>\<open>"output"\<close>.
\<close>

record token_totals =
  tokens_input :: int
  tokens_output :: int

type_synonym totals_dict = "(string \<times> token_totals) list"

fun totals_add :: "string \<Rightarrow> int \<Rightarrow> int \<Rightarrow> totals_dict \<Rightarrow> totals_dict" where
  "totals_add k i out [] = [(k, \<lparr>tokens_input = 0 + i, tokens_output = 0 + out\<rparr>)]"
| "totals_add k i out ((k', t) # rest) =
     (if k' = k then (k', \<lparr>tokens_input = tokens_input t + i, tokens_output = tokens_output t + out\<rparr>) # rest
      else (k', t) # totals_add k i out rest)"

text \<open>The body of the loop over the rows of the usage grouped by model.\<close>

definition model_item_input :: "usage_item \<Rightarrow> int" where
  "model_item_input item =
     (let input_tokens = dict_get (item_uncached_input_tokens item) 0
                         + dict_get (item_cache_read_input_tokens item) 0;
          cache_creation = dict_get (item_cache_creation item)
                             \<lparr>ephemeral_1h_input_tokens = None, ephemeral_5m_input_tokens = None\<rparr>;
          input_tokens = input_tokens + dict_get (ephemeral_1h_input_tokens cache_creation) 0;
          input_tokens = input_tokens + dict_get (ephemeral_5m_input_tokens cache_creation) 0
      in input_tokens)"

definition item_friendly_name :: "usage_item \<Rightarrow> string" where
  "item_friendly_name item = friendly_model_name (dict_get (item_model item) ''unknown'')"

definition model_item_step :: "usage_item \<Rightarrow> totals_dict \<Rightarrow> totals_dict" where
  "model_item_step item model_totals =
     totals_add (item_friendly_name item) (model_item_input item)
       (dict_get (item_output_tokens item) 0) model_totals"

text \<open>The body of the loop over the rows of the usage grouped by API key.\<close>

definition item_key_id :: "usage_item \<Rightarrow> string" where
  "item_key_id item =
     (case item_api_key_id item of
        None \<Rightarrow> ''workbench''
      | Some k \<Rightarrow> if k = [] then ''workbench'' else k)"

definition key_item_input :: "usage_item \<Rightarrow> int" where
  "key_item_input item =
     dict_get (item_uncached_input_tokens item) 0 + dict_get (item_cache_read_input_tokens item) 0"

definition key_item_step :: "usage_item \<Rightarrow> totals_dict \<Rightarrow> totals_dict" where
  "key_item_step item key_totals =
     totals_add (item_key_id item) (key_item_input item)
       (dict_get (item_output_tokens item) 0) key_totals"

text \<open>\<^verbatim>\<open>for bucket in buckets: for item in bucket.get("results", []): ...\<close>\<close>

definition over_buckets ::
  "(usage_item \<Rightarrow> totals_dict \<Rightarrow> totals_dict) \<Rightarrow> usage_bucket list \<Rightarrow> totals_dict" where
  "over_buckets step buckets =
     fold (\<lambda>bucket acc. fold step (dict_get (results bucket) []) acc) buckets []"

subsection \<open>Building the report\<close>

definition tokens_usage :: "token_totals \<Rightarrow> UsageData" where
  "tokens_usage tokens =
     UsageData_init (Some (tokens_input tokens)) (Some (tokens_output tokens))
       (Some (tokens_input tokens + tokens_output tokens)) None"

definition model_entry :: "string \<times> token_totals \<Rightarrow> ModelUsage" where
  "model_entry kv = \<lparr>model = fst kv, usage = tokens_usage (snd kv)\<rparr>"

text \<open>\<^verbatim>\<open>key_id[-6:]\<close> is the last six characters, or the whole of a shorter string.\<close>

definition key_hint_of :: "string \<Rightarrow> string" where
  "key_hint_of k =
     (if k = ''workbench'' then ''Workbench''
      else if length k > 6 then ''...'' @ drop (length k - 6) k else k)"

definition key_entry :: "string \<times> token_totals \<Rightarrow> ApiKeyUsage" where
  "key_entry kv = \<lparr>key_id = fst kv, key_hint = key_hint_of (fst kv), usage = tokens_usage (snd kv)\<rparr>"

text \<open>
  \<^verbatim>\<open>total_cost = 0.0; for bucket in cost_data: for item in ...: total_cost += float(item.get("amount", 0))\<close>
\<close>

definition total_cost_of :: "cost_bucket list \<Rightarrow> pyfloat" where
  "total_cost_of cost_data =
     fold (\<lambda>bucket acc.
             fold (\<lambda>item acc. float_add acc (dict_get (amount item) (Finite 0)))
               (dict_get (cost_results bucket) []) acc)
       cost_data (Finite 0)"

text \<open>
  \<^verbatim>\<open>list.sort(key=..., reverse=True)\<close> is stable: elements with equal keys keep their
  order, so it is the stable sort on the negated key.
\<close>

definition combine_data :: "usage_bucket list \<Rightarrow> usage_bucket list \<Rightarrow> cost_bucket list \<Rightarrow> report" where
  "combine_data model_usage key_usage cost_data =
     (let model_totals = over_buckets model_item_step model_usage;
          models = map model_entry model_totals;
          total = fold (\<lambda>m acc. UsageData_add acc (ModelUsage.usage m)) models
                    (UsageData_init None None None None);
          key_totals = over_buckets key_item_step key_usage;
          keys = map key_entry key_totals;
          total_cost = total_cost_of cost_data
      in \<lparr>total = total\<lparr>cost_usd := total_cost\<rparr>,
          by_model = sort_key (\<lambda>x. - total_tokens (ModelUsage.usage x)) models,
          by_key = sort_key (\<lambda>x. - total_tokens (ApiKeyUsage.usage x)) keys\<rparr>)"

section \<open>Dates and times\<close>

text \<open>
  The part of Python's \<^verbatim>\<open>datetime\<close> module that the tracker uses. Dates are those of the
  proleptic Gregorian calendar; the ordinal of a date counts its days from 0001-01-01,
  which has the ordinal 1.
\<close>

datatype py_error = ValueError | OverflowError | RequestException

record datetime =
  year :: int
  month :: int
  day :: int
  hour :: int
  minute :: int
  second :: int
  microsecond :: int
  tzinfo :: "int option"

text \<open>
  \<open>tzinfo\<close> is \<open>None\<close> for a naive datetime and the offset from UTC, in seconds, of a
  \<^verbatim>\<open>timezone\<close> otherwise. A \<^verbatim>\<open>timedelta\<close> is kept normalised, as Python keeps it:
  \<open>0 \<le> seconds < 86400\<close> and \<open>0 \<le> microseconds < 1000000\<close>, the sign in the days.
\<close>

record timedelta =
  days :: int
  seconds :: int
  microseconds :: int

definition is_leap :: "int \<Rightarrow> bool" where
  "is_leap y = (y mod 4 = 0 \<and> (y mod 100 \<noteq> 0 \<or> y mod 400 = 0))"

definition days_before_year :: "int \<Rightarrow> int" where
  "days_before_year y = (let y1 = y - 1 in y1 * 365 + y1 div 4 - y1 div 100 + y1 div 400)"

definition DAYS_IN_MONTH :: "int list" where
  "DAYS_IN_MONTH = [31, 28, 31, 30, 31, 30, 31, 31, 30, 31, 30, 31]"

definition DAYS_BEFORE_MONTH :: "int list" where
  "DAYS_BEFORE_MONTH = [0, 31, 59, 90, 120, 151, 181, 212, 243, 273, 304, 334]"

definition days_in_month :: "int \<Rightarrow> int \<Rightarrow> int" where
  "days_in_month y m = (if m = 2 \<and> is_leap y then 29 else DAYS_IN_MONTH ! nat (m - 1))"

definition days_before_month :: "int \<Rightarrow> int \<Rightarrow> int" where
  "days_before_month y m = DAYS_BEFORE_MONTH ! nat (m - 1) + (if 2 < m \<and> is_leap y then 1 else 0)"

definition ymd2ord :: "int \<Rightarrow> int \<Rightarrow> int \<Rightarrow> int" where
  "ymd2ord y m d = days_before_year y + days_before_month y m + d"

text \<open>
  The date of an ordinal, as \<^verbatim>\<open>date.fromordinal\<close> computes it: the cycles of 400, 100, 4
  and 1 years are split off, and the month is estimated and corrected.
\<close>

definition ord2ymd :: "int \<Rightarrow> int \<times> int \<times> int" where
  "ord2ymd n0 =
     (let n = n0 - 1;
          n400 = n div 146097; n = n mod 146097;
          n100 = n div 36524; n = n mod 36524;
          n4 = n div 1461; n = n mod 1461;
          n1 = n div 365; n = n mod 365;
          y = n400 * 400 + 1 + n100 * 100 + n4 * 4 + n1
      in if n1 = 4 \<or> n100 = 4 then (y - 1, 12, 31)
         else
           let leapyear = (n1 = 3 \<and> (n4 \<noteq> 24 \<or> n100 = 3));
               m = (n + 50) div 32;
               preceding = DAYS_BEFORE_MONTH ! nat (m - 1) + (if 2 < m \<and> leapyear then 1 else 0)
           in if n < preceding
              then (y, m - 1,
                    n - (preceding - (DAYS_IN_MONTH ! nat (m - 2) + (if m - 1 = 2 \<and> leapyear then 1 else 0))) + 1)
              else (y, m, n - preceding + 1))"

definition MAXORDINAL :: int where
  "MAXORDINAL = 3652059"

definition toordinal :: "datetime \<Rightarrow> int" where
  "toordinal dt = ymd2ord (year dt) (month dt) (day dt)"

text \<open>\<^verbatim>\<open>timedelta(days, seconds, microseconds)\<close>, which normalises its arguments.\<close>

definition timedelta_of :: "int \<Rightarrow> int \<Rightarrow> int \<Rightarrow> timedelta" where
  "timedelta_of d s us =
     (let total = (d * 86400 + s) * 1000000 + us
      in \<lparr>days = total div 86400000000,
          seconds = total mod 86400000000 div 1000000,
          microseconds = total mod 1000000\<rparr>)"

text \<open>
  \<^verbatim>\<open>datetime.__add__\<close> and \<^verbatim>\<open>datetime.__sub__\<close> with a \<^verbatim>\<open>timedelta\<close>: the sum of the
  ordinal, the time of day and the delta is normalised and turned back into a date,
  and a date outside the years 1 to 9999 raises \<^verbatim>\<open>OverflowError\<close>.
\<close>

definition datetime_add :: "datetime \<Rightarrow> timedelta \<Rightarrow> py_error + datetime" where
  "datetime_add self other =
     (let delta = timedelta_of (toordinal self + days other)
                    (hour self * 3600 + minute self * 60 + second self + seconds other)
                    (microsecond self + microseconds other);
          h = seconds delta div 3600; rem = seconds delta mod 3600;
          mi = rem div 60; s = rem mod 60
      in if 0 < days delta \<and> days delta \<le> MAXORDINAL
         then (case ord2ymd (days delta) of
                 (y, m, d) \<Rightarrow>
                   Inr \<lparr>year = y, month = m, day = d, hour = h, minute = mi, second = s,
                        microsecond = microseconds delta, tzinfo = tzinfo self\<rparr>)
         else Inl OverflowError)"

definition datetime_sub :: "datetime \<Rightarrow> timedelta \<Rightarrow> py_error + datetime" where
  "datetime_sub self other =
     datetime_add self (timedelta_of (- days other) (- seconds other) (- microseconds other))"

text \<open>
  \<^verbatim>\<open>datetime.__sub__\<close> with a datetime that carries the same \<^verbatim>\<open>tzinfo\<close>: the difference
  of the ordinals and of the times of day, normalised.
\<close>

definition datetime_diff :: "datetime \<Rightarrow> datetime \<Rightarrow> timedelta" where
  "datetime_diff self other =
     timedelta_of (toordinal self - toordinal other)
       ((second self + minute self * 60 + hour self * 3600)
        - (second other + minute other * 60 + hour other * 3600))
       (microsecond self - microsecond other)"

subsection \<open>Formatting\<close>

definition digit_char :: "nat \<Rightarrow> char" where
  "digit_char n = ''0123456789'' ! n"

fun str_nat :: "nat \<Rightarrow> string" where
  "str_nat n = (if n < 10 then [digit_char n] else str_nat (n div 10) @ [digit_char (n mod 10)])"

text \<open>\<^verbatim>\<open>str(i)\<close> of an integer, and the zero-padded decimal of a field that is not negative.\<close>

definition str_int :: "int \<Rightarrow> string" where
  "str_int i = (if i < 0 then CHR ''-'' # str_nat (nat (- i)) else str_nat (nat i))"

definition zero_padded :: "nat \<Rightarrow> int \<Rightarrow> string" where
  "zero_padded w i = (let s = str_int i in replicate (w - length s) CHR ''0'' @ s)"

definition month_abbr :: "string list" where
  "month_abbr = [''Jan'', ''Feb'', ''Mar'', ''Apr'', ''May'', ''Jun'',
                 ''Jul'', ''Aug'', ''Sep'', ''Oct'', ''Nov'', ''Dec'']"

text \<open>
  \<^verbatim>\<open>dt.strftime("%Y-%m-%dT%H:%M:%SZ")\<close>, with the year in four digits (which is what
  every platform prints from the year 1000 on), and \<^verbatim>\<open>dt.strftime("%b %d")\<close> in the C
  locale.
\<close>

definition strftime_iso :: "datetime \<Rightarrow> string" where
  "strftime_iso dt =
     zero_padded 4 (year dt) @ ''-'' @ zero_padded 2 (month dt) @ ''-'' @ zero_padded 2 (day dt) @ ''T'' @
     zero_padded 2 (hour dt) @ '':'' @ zero_padded 2 (minute dt) @ '':'' @ zero_padded 2 (second dt) @ ''Z''"

definition strftime_b_d :: "datetime \<Rightarrow> string" where
  "strftime_b_d dt = month_abbr ! nat (month dt - 1) @ '' '' @ zero_padded 2 (day dt)"

subsection \<open>Parsing\<close>

text \<open>
  \<^verbatim>\<open>datetime.strptime(s, "%Y-%m-%dT%H:%M:%SZ")\<close>. Python turns the format into a regular
  expression, matched at the start of the string and without regard to case; each
  directive is a group of alternatives that are tried in order:
  \<^verbatim>\<open>%Y\<close> is \<^verbatim>\<open>\d\d\d\d\<close>, \<^verbatim>\<open>%m\<close> is \<^verbatim>\<open>1[0-2]|0[1-9]|[1-9]\<close>,
  \<^verbatim>\<open>%d\<close> is \<^verbatim>\<open>3[0-1]|[1-2]\d|0[1-9]|[1-9]| [1-9]\<close>, \<^verbatim>\<open>%H\<close> is \<^verbatim>\<open>2[0-3]|[0-1]\d|\d\<close>,
  \<^verbatim>\<open>%M\<close> is \<^verbatim>\<open>[0-5]\d|\d\<close> and \<^verbatim>\<open>%S\<close> is \<^verbatim>\<open>6[0-1]|[0-5]\d|\d\<close>.
  An alternative is a list of character classes; a matcher returns every way to match,
  in the order in which backtracking tries them.
\<close>

definition match_classes :: "string list \<Rightarrow> string \<Rightarrow> (string \<times> string) list" where
  "match_classes classes s =
     (if length classes \<le> length s \<and> list_all2 (\<lambda>cls c. c \<in> set cls) classes (take (length classes) s)
      then [(take (length classes) s, drop (length classes) s)] else [])"

definition digit_val :: "char \<Rightarrow> int" where
  "digit_val c = (case map_of (zip ''0123456789'' [0, 1, 2, 3, 4, 5, 6, 7, 8, 9]) c of
                    None \<Rightarrow> 0 | Some v \<Rightarrow> v)"

text \<open>\<^verbatim>\<open>int(s)\<close> of a matched group: digits, perhaps after a space.\<close>

definition int_of_group :: "string \<Rightarrow> int" where
  "int_of_group s = foldl (\<lambda>acc c. 10 * acc + digit_val c) 0 (filter (\<lambda>c. c \<noteq> CHR '' '') s)"

definition group :: "string list list \<Rightarrow> string \<Rightarrow> (int \<times> string) list" where
  "group alternatives s =
     concat (map (\<lambda>classes. map (\<lambda>(m, rest). (int_of_group m, rest)) (match_classes classes s))
               alternatives)"

definition literal :: "char \<Rightarrow> string \<Rightarrow> string list" where
  "literal c s = (case s of [] \<Rightarrow> [] | x # rest \<Rightarrow> if ascii_lower x = ascii_lower c then [rest] else [])"

definition re_Y :: "string list list" where
  "re_Y = [[''0123456789'', ''0123456789'', ''0123456789'', ''0123456789'']]"

definition re_m :: "string list list" where
  "re_m = [[''1'', ''012''], [''0'', ''123456789''], [''123456789'']]"

definition re_d :: "string list list" where
  "re_d = [[''3'', ''01''], [''12'', ''0123456789''], [''0'', ''123456789''], [''123456789''],
           ['' '', ''123456789'']]"

definition re_H :: "string list list" where
  "re_H = [[''2'', ''0123''], [''01'', ''0123456789''], [''0123456789'']]"

definition re_M :: "string list list" where
  "re_M = [[''012345'', ''0123456789''], [''0123456789'']]"

definition re_S :: "string list list" where
  "re_S = [[''6'', ''01''], [''012345'', ''0123456789''], [''0123456789'']]"

text \<open>A group followed by a literal character.\<close>

definition group_then :: "string list list \<Rightarrow> char \<Rightarrow> string \<Rightarrow> (int \<times> string) list" where
  "group_then alternatives c s =
     concat (map (\<lambda>(v, rest). map (\<lambda>rest'. (v, rest')) (literal c rest)) (group alternatives s))"

definition iso_matches :: "string \<Rightarrow> ((int \<times> int \<times> int \<times> int \<times> int \<times> int) \<times> string) list" where
  "iso_matches s =
     concat (map (\<lambda>(Y, s).
     concat (map (\<lambda>(m, s).
     concat (map (\<lambda>(d, s).
     concat (map (\<lambda>(H, s).
     concat (map (\<lambda>(M, s).
             map (\<lambda>(S, s). ((Y, m, d, H, M, S), s))
       (group_then re_S CHR ''Z'' s))
       (group_then re_M CHR '':'' s)))
       (group_then re_H CHR '':'' s)))
       (group_then re_d CHR ''T'' s)))
       (group_then re_m CHR ''-'' s)))
       (group_then re_Y CHR ''-'' s))"

text \<open>
  The first match decides; text left over after it, a year 0, a day that the month does
  not have and a second above 59 raise \<^verbatim>\<open>ValueError\<close>. The result is naive.
\<close>

definition strptime_iso :: "string \<Rightarrow> py_error + datetime" where
  "strptime_iso s =
     (case iso_matches s of
        [] \<Rightarrow> Inl ValueError
      | ((Y, m, d, H, M, S), rest) # _ \<Rightarrow>
          if rest \<noteq> [] then Inl ValueError
          else if Y < 1 \<or> days_in_month Y m < d \<or> 59 < S then Inl ValueError
          else Inr \<lparr>year = Y, month = m, day = d, hour = H, minute = M, second = S,
                    microsecond = 0, tzinfo = None\<rparr>)"

section \<open>The client of the Admin API\<close>

subsection \<open>The time window\<close>

text \<open>
  \<^verbatim>\<open>_get_date_range\<close>, given the reading \<open>now\<close> of \<^verbatim>\<open>datetime.utcnow()\<close>, which is naive.
\<close>

definition get_date_range :: "datetime \<Rightarrow> string \<Rightarrow> py_error + (string \<times> string)" where
  "get_date_range now timeframe =
     (let today_start = now\<lparr>hour := 0, minute := 0, second := 0, microsecond := 0\<rparr>;
          start = (if timeframe = ''today'' then Inr today_start
                   else if timeframe = ''7days'' then datetime_sub today_start (timedelta_of 6 0 0)
                   else if timeframe = ''30days'' then datetime_sub today_start (timedelta_of 29 0 0)
                   else Inr today_start)
      in case start of
           Inl e \<Rightarrow> Inl e
         | Inr start \<Rightarrow> Inr (strftime_iso start, strftime_iso now))"

subsection \<open>The requests\<close>

text \<open>
  The service is what it answers to a request: for the usage report, asked with
  \<^verbatim>\<open>starting_at\<close>, \<^verbatim>\<open>ending_at\<close> and \<^verbatim>\<open>group_by[]\<close>, and for the cost report, asked with
  \<^verbatim>\<open>starting_at\<close> and \<^verbatim>\<open>ending_at\<close>, either the exception that \<^verbatim>\<open>session.get\<close>,
  \<^verbatim>\<open>raise_for_status\<close> or \<^verbatim>\<open>response.json\<close> raises or the value under the key \<^verbatim>\<open>"data"\<close> of
  the body (\<open>None\<close> when the body has no such key).
\<close>

record service =
  usage_report :: "string \<Rightarrow> string \<Rightarrow> string \<Rightarrow> py_error + usage_bucket list option"
  cost_report :: "string \<Rightarrow> string \<Rightarrow> py_error + cost_bucket list option"

definition fetch_usage :: "service \<Rightarrow> string \<Rightarrow> string \<Rightarrow> string \<Rightarrow> py_error + usage_bucket list" where
  "fetch_usage api start_date end_date group_by =
     (case usage_report api start_date end_date group_by of
        Inl e \<Rightarrow> Inl e
      | Inr data \<Rightarrow> Inr (dict_get data []))"

text \<open>
  The window of the cost report: the start of the day of the start, and the start of
  the day after the day of the end. The two \<^verbatim>\<open>strptime\<close> and the addition stand before
  the \<^verbatim>\<open>try\<close>, so their exceptions leave \<^verbatim>\<open>_fetch_cost\<close>.
\<close>

definition cost_window :: "string \<Rightarrow> string \<Rightarrow> py_error + (string \<times> string)" where
  "cost_window start_date end_date =
     (case strptime_iso start_date of
        Inl e \<Rightarrow> Inl e
      | Inr start_dt \<Rightarrow>
          (case strptime_iso end_date of
             Inl e \<Rightarrow> Inl e
           | Inr end_dt \<Rightarrow>
               (let start_day = start_dt\<lparr>hour := 0, minute := 0, second := 0\<rparr>
                in case datetime_add end_dt (timedelta_of 1 0 0) of
                     Inl e \<Rightarrow> Inl e
                   | Inr next_dt \<Rightarrow>
                       (let end_day = next_dt\<lparr>hour := 0, minute := 0, second := 0\<rparr>
                        in Inr (strftime_iso start_day, strftime_iso end_day)))))"

definition fetch_cost :: "service \<Rightarrow> string \<Rightarrow> string \<Rightarrow> py_error + cost_bucket list" where
  "fetch_cost api start_date end_date =
     (case cost_window start_date end_date of
        Inl e \<Rightarrow> Inl e
      | Inr (starting_at, ending_at) \<Rightarrow>
          (case cost_report api starting_at ending_at of
             Inl _ \<Rightarrow> Inr []
           | Inr data \<Rightarrow> Inr (dict_get data [])))"

text \<open>
  \<^verbatim>\<open>get_usage\<close>: an exception of \<^verbatim>\<open>_get_date_range\<close> leaves the method (\<open>Inl\<close>); any
  exception of the three fetches is caught and \<open>None\<close> is returned.
\<close>

definition get_usage :: "service \<Rightarrow> datetime \<Rightarrow> string \<Rightarrow> py_error + report option" where
  "get_usage api now timeframe =
     (case get_date_range now timeframe of
        Inl e \<Rightarrow> Inl e
      | Inr (start_date, end_date) \<Rightarrow>
          (case fetch_usage api start_date end_date ''model'' of
             Inl _ \<Rightarrow> Inr None
           | Inr model_usage \<Rightarrow>
               (case fetch_usage api start_date end_date ''api_key_id'' of
                  Inl _ \<Rightarrow> Inr None
                | Inr key_usage \<Rightarrow>
                    (case fetch_cost api start_date end_date of
                       Inl _ \<Rightarrow> Inr None
                     | Inr cost_data \<Rightarrow> Inr (Some (combine_data model_usage key_usage cost_data))))))"

section \<open>The reset time\<close>

definition is_digit :: "char \<Rightarrow> bool" where
  "is_digit c = (c \<in> set ''0123456789'')"

text \<open>\<^verbatim>\<open>re.sub(r'\.\d+', '', s)\<close>: every dot that digits follow goes, with those digits.\<close>

function strip_fraction :: "string \<Rightarrow> string" where
  "strip_fraction [] = []"
| "strip_fraction (c # cs) =
     (if c = CHR ''.'' \<and> cs \<noteq> [] \<and> is_digit (hd cs) then strip_fraction (dropWhile is_digit cs)
      else c # strip_fraction cs)"
  by pat_completeness auto
termination
  by (relation "measure length") (auto simp: length_dropWhile_le le_imp_less_Suc)

text \<open>\<^verbatim>\<open>s.replace('+00:00', '+0000')\<close>\<close>

fun replace_utc :: "string \<Rightarrow> string" where
  "replace_utc [] = []"
| "replace_utc (c # cs) =
     (if startswith (c # cs) ''+00:00'' then ''+0000'' @ replace_utc (drop 5 cs)
      else c # replace_utc cs)"

text \<open>
  \<^verbatim>\<open>format_reset_time\<close>. \<^verbatim>\<open>datetime.fromisoformat\<close> is a parameter: \<open>None\<close> is its
  \<^verbatim>\<open>ValueError\<close>. The clock is a parameter too: \<open>now\<close> is the reading of
  \<^verbatim>\<open>datetime.now(dt.tzinfo)\<close>, the wall clock in the zone of the timestamp. It carries
  the \<^verbatim>\<open>tzinfo\<close> of the timestamp, so the difference is the one of two datetimes with
  the same \<^verbatim>\<open>tzinfo\<close>.
\<close>

definition format_reset_time ::
  "(string \<Rightarrow> datetime option) \<Rightarrow> datetime \<Rightarrow> string option \<Rightarrow> string" where
  "format_reset_time fromisoformat now iso_time =
     (case iso_time of
        None \<Rightarrow> ''--''
      | Some s \<Rightarrow>
          if s = [] then ''--''
          else
            let clean = strip_fraction s in
            case fromisoformat (replace_utc clean) of
              None \<Rightarrow> ''?''
            | Some dt \<Rightarrow>
                let diff = datetime_diff dt now in
                if days diff = 0 then
                  (let hours = seconds diff div 3600;
                       mins = seconds diff mod 3600 div 60
                   in if 0 < hours then str_int hours @ ''h '' @ str_int mins @ ''m''
                      else str_int mins @ ''m'')
                else if days diff = 1 then ''Tomorrow''
                else strftime_b_d dt)"

text \<open>
  The part of \<^verbatim>\<open>datetime.fromisoformat\<close> (Python 3.11 and later) that reads
  \<^verbatim>\<open>YYYY-MM-DD\<close>, one separator character, \<^verbatim>\<open>HH:MM:SS\<close> and then nothing, \<^verbatim>\<open>Z\<close>, or an
  offset \<^verbatim>\<open>+HH:MM\<close>, \<^verbatim>\<open>-HH:MM\<close>, \<^verbatim>\<open>+HHMM\<close> or \<^verbatim>\<open>-HHMM\<close>. Python reads further forms of
  ISO 8601, which this parser rejects; the properties of \<open>format_reset_time\<close> hold for
  every parser.
\<close>

definition two_digits :: "string \<Rightarrow> int option" where
  "two_digits s = (if length s = 2 \<and> list_all is_digit s then Some (int_of_group s) else None)"

definition parse_offset :: "string \<Rightarrow> int option option" where
  "parse_offset s =
     (if s = [] then Some None
      else if s = ''Z'' then Some (Some 0)
      else if hd s = CHR ''+'' \<or> hd s = CHR ''-'' then
        (let body = tl s;
             hm = (if length body = 5 \<and> body ! 2 = CHR '':'' then Some (take 2 body, drop 3 body)
                   else if length body = 4 then Some (take 2 body, drop 2 body)
                   else None)
         in case hm of
              None \<Rightarrow> None
            | Some (h, m) \<Rightarrow>
                (case (two_digits h, two_digits m) of
                   (Some hh, Some mm) \<Rightarrow>
                     if hh \<le> 23 \<and> mm \<le> 59
                     then Some (Some ((if hd s = CHR ''-'' then - 1 else 1) * (hh * 3600 + mm * 60)))
                     else None
                 | _ \<Rightarrow> None))
      else None)"

definition fromisoformat :: "string \<Rightarrow> datetime option" where
  "fromisoformat s =
     (if length s < 19 \<or> s ! 4 \<noteq> CHR ''-'' \<or> s ! 7 \<noteq> CHR ''-'' \<or> s ! 13 \<noteq> CHR '':'' \<or> s ! 16 \<noteq> CHR '':''
      then None
      else
        (case (two_digits (take 2 s), two_digits (take 2 (drop 2 s)), two_digits (take 2 (drop 5 s)),
               two_digits (take 2 (drop 8 s)), two_digits (take 2 (drop 11 s)),
               two_digits (take 2 (drop 14 s)), two_digits (take 2 (drop 17 s)), parse_offset (drop 19 s)) of
           (Some yh, Some yl, Some m, Some d, Some H, Some M, Some S, Some tz) \<Rightarrow>
             (let y = yh * 100 + yl
              in if 1 \<le> y \<and> 1 \<le> m \<and> m \<le> 12 \<and> 1 \<le> d \<and> d \<le> days_in_month y m \<and>
                    H \<le> 23 \<and> M \<le> 59 \<and> S \<le> 59
                 then Some \<lparr>year = y, month = m, day = d, hour = H, minute = M, second = S,
                             microsecond = 0, tzinfo = tz\<rparr>
                 else None)
         | _ \<Rightarrow> None))"

section \<open>Vocabulary of the properties\<close>

text \<open>The invariant of the figures: the total is the sum of the two token counts.\<close>

definition usage_invariant :: "UsageData \<Rightarrow> bool" where
  "usage_invariant u = (total_tokens u = input_tokens u + output_tokens u)"

text \<open>A sum of two floats is exact when the rounding leaves it as it is.\<close>

definition exact_sum :: "pyfloat \<Rightarrow> pyfloat \<Rightarrow> bool" where
  "exact_sum x y =
     (case (x, y) of
        (Finite a, Finite b) \<Rightarrow> round_to_double (a + b) = Finite (a + b)
      | _ \<Rightarrow> False)"

text \<open>Every result row of every bucket, in the order of the response.\<close>

definition bucket_rows :: "usage_bucket list \<Rightarrow> usage_item list" where
  "bucket_rows buckets = concat (map (\<lambda>bucket. dict_get (results bucket) []) buckets)"

text \<open>The distinct elements of a list, in the order in which each is first met.\<close>

definition first_seen :: "'a list \<Rightarrow> 'a list" where
  "first_seen xs = rev (remdups (rev xs))"

text \<open>The dates and datetimes that Python's constructors accept.\<close>

definition valid_date :: "int \<Rightarrow> int \<Rightarrow> int \<Rightarrow> bool" where
  "valid_date y m d = (1 \<le> y \<and> y \<le> 9999 \<and> 1 \<le> m \<and> m \<le> 12 \<and> 1 \<le> d \<and> d \<le> days_in_month y m)"

definition valid_datetime :: "datetime \<Rightarrow> bool" where
  "valid_datetime dt =
     (valid_date (year dt) (month dt) (day dt) \<and> 0 \<le> hour dt \<and> hour dt < 24 \<and>
      0 \<le> minute dt \<and> minute dt < 60 \<and> 0 \<le> second dt \<and> second dt < 60 \<and>
      0 \<le> microsecond dt \<and> microsecond dt < 1000000)"

text \<open>The microseconds from the start of 0001-01-01 to the wall-clock reading of a datetime.\<close>

definition instant :: "datetime \<Rightarrow> int" where
  "instant dt =
     ((toordinal dt - 1) * 86400 + hour dt * 3600 + minute dt * 60 + second dt) * 1000000
     + microsecond dt"

text \<open>The shape \<^verbatim>\<open>YYYY-MM-DDTHH:MM:SSZ\<close> of a serialised instant.\<close>

definition iso_z_format :: "string \<Rightarrow> bool" where
  "iso_z_format s =
     (length s = 20 \<and>
      list_all (\<lambda>i. is_digit (s ! i)) [0, 1, 2, 3, 5, 6, 8, 9, 11, 12, 14, 15, 17, 18] \<and>
      s ! 4 = CHR ''-'' \<and> s ! 7 = CHR ''-'' \<and> s ! 10 = CHR ''T'' \<and>
      s ! 13 = CHR '':'' \<and> s ! 16 = CHR '':'' \<and> s ! 19 = CHR ''Z'')"

text \<open>Every row of every bucket of the cost report.\<close>

definition cost_rows :: "cost_bucket list \<Rightarrow> cost_item list" where
  "cost_rows buckets = concat (map (\<lambda>bucket. dict_get (cost_results bucket) []) buckets)"

section \<open>Float arithmetic\<close>

lemma bitlen_eqI: "2 ^ n \<le> x \<Longrightarrow> x < 2 ^ Suc n \<Longrightarrow> bitlen x = int n + 1"
proof -
  assume a: "2 ^ n \<le> x" "x < 2 ^ Suc n"
  have "bitlen x \<le> int (Suc n)" using a(2) by (simp add: bitlen_le_iff_power nat_add_distrib)
  moreover have "int (Suc n) \<le> bitlen x" using a(1) by (simp add: bitlen_ge_iff_power nat_add_distrib)
  ultimately show ?thesis by simp
qed

lemma round_to_double_small: "\<bar>n\<bar> < 2 ^ 53 \<Longrightarrow> round_to_double n = Finite n"
  by (simp add: round_to_double_def Let_def bitlen_le_iff_power)

lemma int_div_less_pow:
  fixes a :: int
  assumes "a < c * 2 ^ s"
  shows "a div 2 ^ s < c"
proof (rule ccontr)
  assume "\<not> a div 2 ^ s < c"
  then have "c * 2 ^ s \<le> a div 2 ^ s * 2 ^ s"
    by (simp add: mult_right_mono)
  also have "\<dots> \<le> a div 2 ^ s * 2 ^ s + a mod 2 ^ s" by simp
  also have "\<dots> = a" by (rule div_mult_mod_eq)
  finally show False using assms by simp
qed

lemma round_to_double_scaled:
  fixes m :: int
  assumes lo: "2 ^ (52 + s) \<le> \<bar>m\<bar>" and hi: "\<bar>m\<bar> < 2 ^ (53 + s)"
    and pos: "0 < s + k" and bound: "s + k + 53 < 2098"
  shows "round_to_double (m * 2 ^ k) =
     (let q = \<bar>m\<bar> div 2 ^ s;
          r = \<bar>m\<bar> mod 2 ^ s;
          q' = (if 2 ^ s < 2 * r \<or> (2 ^ s = 2 * r \<and> odd q) then q + 1 else q)
      in Finite (sgn m * q' * 2 ^ (s + k)))"
proof -
  define a where "a = \<bar>m * 2 ^ k\<bar>"
  have a: "a = \<bar>m\<bar> * 2 ^ k" by (simp add: a_def abs_mult)
  have "2 ^ (52 + s + k) \<le> a"
    using lo by (simp add: a power_add)
  moreover have "a < 2 ^ Suc (52 + s + k)"
    using hi by (simp add: a power_add)
  ultimately have bl: "bitlen a = int (52 + s + k) + 1"
    by (rule bitlen_eqI)
  have sh: "nat (bitlen a - 53) = s + k"
    using bl by linarith
  have q: "a div 2 ^ (s + k) = \<bar>m\<bar> div 2 ^ s"
    by (simp add: a power_add)
  have r: "a mod 2 ^ (s + k) = (\<bar>m\<bar> mod 2 ^ s) * 2 ^ k"
    by (simp add: a power_add)
  have h: "(2::int) ^ (s + k - 1) * 2 = 2 ^ s * 2 ^ k"
    using pos by (cases "s + k") (simp_all flip: power_add)
  have cmp1: "(2::int) ^ (s + k - 1) < (\<bar>m\<bar> mod 2 ^ s) * 2 ^ k \<longleftrightarrow> 2 ^ s < 2 * (\<bar>m\<bar> mod 2 ^ s)"
  proof -
    have "(2::int) ^ (s + k - 1) < (\<bar>m\<bar> mod 2 ^ s) * 2 ^ k \<longleftrightarrow>
          (2::int) ^ (s + k - 1) * 2 < (\<bar>m\<bar> mod 2 ^ s) * 2 ^ k * 2" by simp
    also have "\<dots> \<longleftrightarrow> 2 ^ s * 2 ^ k < (2 * (\<bar>m\<bar> mod 2 ^ s)) * 2 ^ k"
      by (simp only: h) (simp add: ac_simps)
    also have "\<dots> \<longleftrightarrow> 2 ^ s < 2 * (\<bar>m\<bar> mod 2 ^ s)"
      by (rule mult_less_cancel_right_pos) simp
    finally show ?thesis .
  qed
  have cmp2: "(\<bar>m\<bar> mod 2 ^ s) * 2 ^ k = (2::int) ^ (s + k - 1) \<longleftrightarrow> 2 ^ s = 2 * (\<bar>m\<bar> mod 2 ^ s)"
  proof -
    have "(\<bar>m\<bar> mod 2 ^ s) * 2 ^ k = (2::int) ^ (s + k - 1) \<longleftrightarrow>
          (\<bar>m\<bar> mod 2 ^ s) * 2 ^ k * 2 = (2::int) ^ (s + k - 1) * 2" by simp
    also have "\<dots> \<longleftrightarrow> (2 * (\<bar>m\<bar> mod 2 ^ s)) * 2 ^ k = 2 ^ s * 2 ^ k"
      by (simp only: h) (simp add: ac_simps)
    also have "\<dots> \<longleftrightarrow> 2 ^ s = 2 * (\<bar>m\<bar> mod 2 ^ s)"
      by auto
    finally show ?thesis .
  qed
  define q' where "q' = (if 2 ^ s < 2 * (\<bar>m\<bar> mod 2 ^ s) \<or> (2 ^ s = 2 * (\<bar>m\<bar> mod 2 ^ s) \<and> odd (\<bar>m\<bar> div 2 ^ s))
      then \<bar>m\<bar> div 2 ^ s + 1 else \<bar>m\<bar> div 2 ^ s)"
  have "\<bar>m\<bar> div 2 ^ s < 2 ^ 53"
    using hi by (intro int_div_less_pow) (simp add: power_add)
  then have "q' \<le> 2 ^ 53" by (simp add: q'_def)
  then have "q' * 2 ^ (s + k) \<le> 2 ^ 53 * 2 ^ (s + k)"
    by (simp add: mult_right_mono)
  also have "\<dots> = 2 ^ (s + k + 53)" by (simp add: power_add)
  also have "\<dots> < float_overflow"
    unfolding float_overflow_def using bound by (intro power_strict_increasing) simp_all
  finally have nov: "\<not> float_overflow \<le> q' * 2 ^ (s + k)" by simp
  have sg: "sgn (m * 2 ^ k) = sgn m" by (simp add: sgn_mult)
  show ?thesis
    unfolding round_to_double_def a_def [symmetric] Let_def sh q r cmp1 cmp2
    using nov pos unfolding q'_def by (auto simp add: sg mult.assoc)
qed


lemma round_to_double_exact:
  fixes m :: int
  assumes m: "\<bar>m\<bar> < 2 ^ 53" and bound: "k + 53 < 2098"
  shows "round_to_double (m * 2 ^ k) = Finite (m * 2 ^ k)"
proof (cases "m = 0")
  case True
  then show ?thesis by (simp add: round_to_double_def)
next
  case False
  define a where "a = \<bar>m * 2 ^ k\<bar>"
  define s where "s = nat (bitlen a - 53)"
  have a: "a = \<bar>m\<bar> * 2 ^ k" by (simp add: a_def abs_mult)
  have bl: "bitlen a = bitlen \<bar>m\<bar> + int k"
    using False by (simp add: a)
  have "bitlen \<bar>m\<bar> \<le> 53"
    using m by (simp add: bitlen_le_iff_power)
  then have sk: "s \<le> k" by (simp add: s_def bl)
  show ?thesis
  proof (cases "s = 0")
    case True
    then show ?thesis
      by (simp add: round_to_double_def Let_def s_def a_def)
  next
    case s0: False
    have split: "a = (\<bar>m\<bar> * 2 ^ (k - s)) * 2 ^ s"
      using sk by (simp add: a mult.assoc flip: power_add)
    have q: "a div 2 ^ s = \<bar>m\<bar> * 2 ^ (k - s)"
      by (subst split) simp
    have r: "a mod 2 ^ s = 0"
      by (subst split) simp
    have "a < 2 ^ 53 * 2 ^ k"
      using m by (simp add: a)
    also have "\<dots> = 2 ^ (k + 53)" by (simp add: power_add)
    also have "\<dots> < float_overflow"
      unfolding float_overflow_def using bound by (intro power_strict_increasing) simp_all
    finally have nov: "\<not> float_overflow \<le> a" by simp
    have recomb: "\<bar>m\<bar> * 2 ^ (k - s) * 2 ^ s = a"
      using split by simp
    have sg: "sgn (m * 2 ^ k) * a = m * 2 ^ k"
      unfolding a_def by (rule mult_sgn_abs)
    show ?thesis
      unfolding round_to_double_def a_def [symmetric] s_def [symmetric] Let_def q r
      using s0 nov by (simp add: recomb sg)
  qed
qed

lemma double_add:
  assumes "- 1074 \<le> e" "e \<le> e1" "e \<le> e2"
  shows "float_add (double m1 e1) (double m2 e2) =
         round_to_double ((m1 * 2 ^ nat (e1 - e) + m2 * 2 ^ nat (e2 - e)) * 2 ^ nat (e + 1074))"
proof -
  have "nat (e1 + 1074) = nat (e1 - e) + nat (e + 1074)"
       "nat (e2 + 1074) = nat (e2 - e) + nat (e + 1074)"
    using assms by linarith+
  then show ?thesis
    by (simp add: double_def power_add algebra_simps)
qed

lemma double_eq_iff: "double a e = double b e \<longleftrightarrow> a = b"
  by (simp add: double_def)

lemma is_float_double:
  "\<bar>m\<bar> < 2 ^ 53 \<Longrightarrow> - 1074 \<le> e \<Longrightarrow> e < 971 \<Longrightarrow> is_float (double m e)"
  by (simp add: is_float_def double_def round_to_double_exact)


text \<open>
  The sums of \<open>0.1\<close>, \<open>0.2\<close> and \<open>0.3\<close>: \<open>0.1 + 0.2\<close> is \<open>0.30000000000000004\<close>, and
  adding \<open>0.3\<close> gives \<open>0.6000000000000001\<close>, while \<open>0.2 + 0.3\<close> is \<open>0.5\<close> and \<open>0.1 + 0.5\<close>
  is \<open>0.6\<close>.
\<close>

lemma float_add_01_02:
  "float_add (double 7205759403792794 (- 56)) (double 7205759403792794 (- 55)) =
   double 5404319552844596 (- 54)"
  using double_add [of "- 56" "- 56" "- 55" 7205759403792794 7205759403792794]
    round_to_double_scaled [of 2 21617278211378382 1018]
  by (simp add: double_def)

lemma float_add_03_03:
  "float_add (double 5404319552844596 (- 54)) (double 5404319552844595 (- 54)) =
   double 5404319552844596 (- 53)"
  using double_add [of "- 54" "- 54" "- 54" 5404319552844596 5404319552844595]
    round_to_double_scaled [of 1 10808639105689191 1020]
  by (simp add: double_def)

lemma float_add_02_03:
  "float_add (double 7205759403792794 (- 55)) (double 5404319552844595 (- 54)) =
   double 4503599627370496 (- 53)"
  using double_add [of "- 55" "- 55" "- 54" 7205759403792794 5404319552844595]
    round_to_double_scaled [of 2 18014398509481984 1019]
  by (simp add: double_def)

lemma float_add_01_05:
  "float_add (double 7205759403792794 (- 56)) (double 4503599627370496 (- 53)) =
   double 5404319552844595 (- 53)"
  using double_add [of "- 56" "- 56" "- 53" 7205759403792794 4503599627370496]
    round_to_double_scaled [of 3 43234556422756762 1018]
  by (simp add: double_def)

lemma float_add_commute: "float_add x y = float_add y x"
  by (cases x; cases y) (auto simp: add.commute)

lemma float_add_zero: "is_float x \<Longrightarrow> float_add (Finite 0) x = x"
  by (cases x) (simp_all add: is_float_def)

lemma float_add_assoc_exact:
  assumes "exact_sum x y" "exact_sum y z"
  shows "float_add (float_add x y) z = float_add x (float_add y z)"
proof -
  from assms obtain a b c where "x = Finite a" "y = Finite b" "z = Finite c"
    by (cases x; cases y; cases z) (simp_all add: exact_sum_def)
  with assms show ?thesis
    by (simp add: exact_sum_def add.assoc)
qed

section \<open>UsageData\<close>

lemma dict_get_simps [simp]: "dict_get None d = d" "dict_get (Some x) d = x"
  by (simp_all add: dict_get_def)

lemma UsageData_add_fields [simp]:
  "input_tokens (UsageData_add x y) = input_tokens x + input_tokens y"
  "output_tokens (UsageData_add x y) = output_tokens x + output_tokens y"
  "total_tokens (UsageData_add x y) = total_tokens x + total_tokens y"
  "cost_usd (UsageData_add x y) = float_add (cost_usd x) (cost_usd y)"
  by (simp_all add: UsageData_add_def)

lemma UsageData_init_fields [simp]:
  "input_tokens (UsageData_init i out t c) = dict_get i 0"
  "output_tokens (UsageData_init i out t c) = dict_get out 0"
  "total_tokens (UsageData_init i out t c) = dict_get t 0"
  "cost_usd (UsageData_init i out t c) = dict_get c (Finite 0)"
  by (simp_all add: UsageData_init_def dict_get_def)

text \<open>
  C4, as stated, fails: with the costs \<open>0.1\<close>, \<open>0.2\<close> and \<open>0.3\<close> the two groupings of the
  sum differ in \<^verbatim>\<open>cost_usd\<close> (\<open>0.6000000000000001\<close> against \<open>0.6\<close>).
\<close>

theorem UsageData_add_assoc_counterexample:
  "\<not> UsageData_eq
       (UsageData_add
          (UsageData_add (UsageData_init None None None (Some (double 7205759403792794 (- 56))))
             (UsageData_init None None None (Some (double 7205759403792794 (- 55)))))
          (UsageData_init None None None (Some (double 5404319552844595 (- 54)))))
       (UsageData_add (UsageData_init None None None (Some (double 7205759403792794 (- 56))))
          (UsageData_add (UsageData_init None None None (Some (double 7205759403792794 (- 55))))
             (UsageData_init None None None (Some (double 5404319552844595 (- 54))))))"
  by (simp add: UsageData_eq_def float_eq_def float_add_01_02 float_add_03_03 float_add_02_03
      float_add_01_05 double_eq_iff)

text \<open>
  C4, amended: the addition of UsageData is associative on the three integer fields; it
  is commutative whenever the sum of the costs is not a NaN; the identity
  \<open>(0, 0, 0, 0.0)\<close> added to an \<open>X\<close> is equal to \<open>X\<close> whenever the cost of \<open>X\<close> is a float
  other than NaN; and on \<^verbatim>\<open>cost_usd\<close> it is associative when the sums of the costs of
  \<open>X\<close>, \<open>Y\<close> and of \<open>Y\<close>, \<open>Z\<close> are exact and the result is not a NaN.
\<close>

theorem UsageData_add_laws:
  "input_tokens (UsageData_add (UsageData_add X Y) Z) = input_tokens (UsageData_add X (UsageData_add Y Z)) \<and>
   output_tokens (UsageData_add (UsageData_add X Y) Z) = output_tokens (UsageData_add X (UsageData_add Y Z)) \<and>
   total_tokens (UsageData_add (UsageData_add X Y) Z) = total_tokens (UsageData_add X (UsageData_add Y Z)) \<and>
   (cost_usd (UsageData_add X Y) \<noteq> NaN \<longrightarrow> UsageData_eq (UsageData_add X Y) (UsageData_add Y X)) \<and>
   (is_float (cost_usd X) \<and> cost_usd X \<noteq> NaN \<longrightarrow>
      UsageData_eq (UsageData_add (UsageData_init None None None None) X) X) \<and>
   (exact_sum (cost_usd X) (cost_usd Y) \<and> exact_sum (cost_usd Y) (cost_usd Z) \<and>
    cost_usd (UsageData_add (UsageData_add X Y) Z) \<noteq> NaN \<longrightarrow>
      UsageData_eq (UsageData_add (UsageData_add X Y) Z) (UsageData_add X (UsageData_add Y Z)))"
proof -
  have comm: "cost_usd (UsageData_add X Y) \<noteq> NaN \<Longrightarrow> UsageData_eq (UsageData_add X Y) (UsageData_add Y X)"
    by (simp add: UsageData_eq_def float_eq_def float_add_commute add.commute)
  have ident: "is_float (cost_usd X) \<Longrightarrow> cost_usd X \<noteq> NaN \<Longrightarrow>
     UsageData_eq (UsageData_add (UsageData_init None None None None) X) X"
    by (simp add: UsageData_eq_def float_eq_def float_add_zero)
  have assoc: "exact_sum (cost_usd X) (cost_usd Y) \<Longrightarrow> exact_sum (cost_usd Y) (cost_usd Z) \<Longrightarrow>
     cost_usd (UsageData_add (UsageData_add X Y) Z) \<noteq> NaN \<Longrightarrow>
     UsageData_eq (UsageData_add (UsageData_add X Y) Z) (UsageData_add X (UsageData_add Y Z))"
    using float_add_assoc_exact [of "cost_usd X" "cost_usd Y" "cost_usd Z"]
    by (simp add: UsageData_eq_def float_eq_def add.assoc)
  show ?thesis
    using comm ident assoc by (simp add: add.assoc)
qed

text \<open>The laws at the costs \<open>0.5\<close>, \<open>0.25\<close> and \<open>0.125\<close>, whose sums are exact.\<close>

theorem UsageData_add_laws_witness:
  "is_float (double 1 (- 1)) \<and>
   exact_sum (double 1 (- 1)) (double 1 (- 2)) \<and>
   exact_sum (double 1 (- 2)) (double 1 (- 3)) \<and>
   UsageData_eq
     (UsageData_add (UsageData_init (Some 100) (Some 50) (Some 150) (Some (double 1 (- 1))))
        (UsageData_init (Some 200) (Some 10) (Some 210) (Some (double 1 (- 2)))))
     (UsageData_add (UsageData_init (Some 200) (Some 10) (Some 210) (Some (double 1 (- 2))))
        (UsageData_init (Some 100) (Some 50) (Some 150) (Some (double 1 (- 1))))) \<and>
   UsageData_eq
     (UsageData_add (UsageData_init None None None None)
        (UsageData_init (Some 100) (Some 50) (Some 150) (Some (double 1 (- 1)))))
     (UsageData_init (Some 100) (Some 50) (Some 150) (Some (double 1 (- 1)))) \<and>
   UsageData_eq
     (UsageData_add
        (UsageData_add (UsageData_init (Some 100) (Some 50) (Some 150) (Some (double 1 (- 1))))
           (UsageData_init (Some 200) (Some 10) (Some 210) (Some (double 1 (- 2)))))
        (UsageData_init (Some 7) (Some 8) (Some 15) (Some (double 1 (- 3)))))
     (UsageData_add (UsageData_init (Some 100) (Some 50) (Some 150) (Some (double 1 (- 1))))
        (UsageData_add (UsageData_init (Some 200) (Some 10) (Some 210) (Some (double 1 (- 2))))
           (UsageData_init (Some 7) (Some 8) (Some 15) (Some (double 1 (- 3))))))"
proof -
  have s1: "float_add (double 1 (- 1)) (double 1 (- 2)) = double 3 (- 2)"
    using double_add [of "- 2" "- 1" "- 2" 1 1] round_to_double_exact [of 3 1072]
    by (simp add: double_def)
  have s2: "float_add (double 1 (- 2)) (double 1 (- 3)) = double 3 (- 3)"
    using double_add [of "- 3" "- 2" "- 3" 1 1] round_to_double_exact [of 3 1071]
    by (simp add: double_def)
  have s3: "float_add (double 3 (- 2)) (double 1 (- 3)) = double 7 (- 3)"
    using double_add [of "- 3" "- 2" "- 3" 3 1] round_to_double_exact [of 7 1071]
    by (simp add: double_def)
  have e1: "exact_sum (double 1 (- 1)) (double 1 (- 2))"
    using s1 by (simp add: exact_sum_def double_def)
  have e2: "exact_sum (double 1 (- 2)) (double 1 (- 3))"
    using s2 by (simp add: exact_sum_def double_def)
  have f: "is_float (double 1 (- 1))"
    by (rule is_float_double) simp_all
  have n: "double 1 (- 1) \<noteq> NaN" "double 3 (- 2) \<noteq> NaN" "double 7 (- 3) \<noteq> NaN"
    by (simp_all add: double_def)
  show ?thesis
    using f e1 e2 n s1 s3
      UsageData_add_laws [of "UsageData_init (Some 100) (Some 50) (Some 150) (Some (double 1 (- 1)))"
        "UsageData_init (Some 200) (Some 10) (Some 210) (Some (double 1 (- 2)))"
        "UsageData_init (Some 7) (Some 8) (Some 15) (Some (double 1 (- 3)))"]
    by simp
qed

section \<open>Running totals\<close>

lemma fold_concat_map: "fold (\<lambda>x. fold f (g x)) xs a = fold f (concat (map g xs)) a"
  by (induction xs arbitrary: a) simp_all

lemma over_buckets_rows: "over_buckets step buckets = fold step (bucket_rows buckets) []"
  by (simp add: over_buckets_def bucket_rows_def fold_concat_map)

lemma first_seen_snoc:
  "first_seen (xs @ [x]) = (if x \<in> set xs then first_seen xs else first_seen xs @ [x])"
  by (simp add: first_seen_def)

lemma set_first_seen [simp]: "set (first_seen xs) = set xs"
  by (simp add: first_seen_def)

lemma distinct_first_seen [simp]: "distinct (first_seen xs)"
  by (simp add: first_seen_def)

lemma keys_totals_add:
  "map fst (totals_add k i out d) = (if k \<in> fst ` set d then map fst d else map fst d @ [k])"
proof (induction d)
  case Nil
  then show ?case by simp
next
  case (Cons a d)
  obtain k' t where a: "a = (k', t)" by (cases a)
  show ?case
    using Cons by (cases "k' = k") (simp_all add: a)
qed

lemma sum_input_totals_add:
  "(\<Sum>kv\<leftarrow>totals_add k i out d. tokens_input (snd kv)) = (\<Sum>kv\<leftarrow>d. tokens_input (snd kv)) + i"
  by (induction d) auto

lemma sum_output_totals_add:
  "(\<Sum>kv\<leftarrow>totals_add k i out d. tokens_output (snd kv)) = (\<Sum>kv\<leftarrow>d. tokens_output (snd kv)) + out"
  by (induction d) auto

lemma set_totals_add:
  assumes "distinct (map fst d)"
  shows "set (totals_add k i out d) =
     (if k \<in> fst ` set d
      then (\<lambda>kv. if fst kv = k
                  then (k, \<lparr>tokens_input = tokens_input (snd kv) + i,
                            tokens_output = tokens_output (snd kv) + out\<rparr>)
                  else kv) ` set d
      else insert (k, \<lparr>tokens_input = i, tokens_output = out\<rparr>) (set d))"
  using assms
proof (induction d)
  case Nil
  then show ?case by simp
next
  case (Cons a d)
  obtain k' t where a: "a = (k', t)" by (cases a)
  show ?case
  proof (cases "k' = k")
    case True
    with Cons.prems a have "k \<notin> fst ` set d" by auto
    then have "(\<lambda>kv. if fst kv = k
                  then (k, \<lparr>tokens_input = tokens_input (snd kv) + i,
                            tokens_output = tokens_output (snd kv) + out\<rparr>)
                  else kv) ` set d = set d"
      by (force simp: image_iff)
    with True a show ?thesis by simp
  next
    case False
    with Cons a show ?thesis by (auto simp: image_iff)
  qed
qed

text \<open>
  The dictionary after the loop over the rows: its keys are the keys of the rows in
  the order of their first occurrence, and each key holds the sums over its rows.
\<close>

lemma fold_totals:
  fixes key :: "'r \<Rightarrow> string" and inp :: "'r \<Rightarrow> int" and out :: "'r \<Rightarrow> int"
  defines "d rows \<equiv> fold (\<lambda>r. totals_add (key r) (inp r) (out r)) rows []"
  shows "map fst (d rows) = first_seen (map key rows) \<and>
         set (d rows) =
           (\<lambda>k. (k, \<lparr>tokens_input = (\<Sum>r\<leftarrow>filter (\<lambda>r. key r = k) rows. inp r),
                      tokens_output = (\<Sum>r\<leftarrow>filter (\<lambda>r. key r = k) rows. out r)\<rparr>)) ` key ` set rows"
proof (induction rows rule: rev_induct)
  case Nil
  then show ?case by (simp add: d_def first_seen_def)
next
  case (snoc r rows)
  let ?E = "\<lambda>rows k. (k, \<lparr>tokens_input = (\<Sum>r\<leftarrow>filter (\<lambda>r. key r = k) rows. inp r),
                      tokens_output = (\<Sum>r\<leftarrow>filter (\<lambda>r. key r = k) rows. out r)\<rparr>)"
  have step: "d (rows @ [r]) = totals_add (key r) (inp r) (out r) (d rows)"
    by (simp add: d_def)
  from snoc have keys: "map fst (d rows) = first_seen (map key rows)"
    and elems: "set (d rows) = ?E rows ` key ` set rows" by simp_all
  from keys have dist: "distinct (map fst (d rows))" by simp
  from keys have fst_set: "fst ` set (d rows) = key ` set rows"
    by (metis set_map set_first_seen)
  have 1: "map fst (d (rows @ [r])) = first_seen (map key (rows @ [r]))"
    by (simp add: step keys_totals_add fst_set keys first_seen_snoc)
  have 2: "set (d (rows @ [r])) = ?E (rows @ [r]) ` key ` set (rows @ [r])"
  proof (cases "key r \<in> key ` set rows")
    case True
    from True have mem: "key r \<in> fst ` set (d rows)"
      by (simp only: fst_set)
    have "set (d (rows @ [r])) =
        (\<lambda>kv. if fst kv = key r
               then (key r, \<lparr>tokens_input = tokens_input (snd kv) + inp r,
                              tokens_output = tokens_output (snd kv) + out r\<rparr>)
               else kv) ` set (d rows)"
      using mem by (simp only: step set_totals_add [OF dist] if_True)
    also have "\<dots> = ?E (rows @ [r]) ` key ` set rows"
      unfolding elems image_image by (intro image_cong) auto
    also have "\<dots> = ?E (rows @ [r]) ` key ` set (rows @ [r])"
      using True by auto
    finally show ?thesis .
  next
    case False
    then have fresh: "\<And>x. x \<in> set rows \<Longrightarrow> key x \<noteq> key r"
      by (metis imageI)
    have same: "?E (rows @ [r]) k = ?E rows k" if "k \<in> key ` set rows" for k
    proof -
      from that obtain x where "x \<in> set rows" "k = key x" by auto
      with fresh have "key r \<noteq> k" by metis
      then show ?thesis by simp
    qed
    have none: "filter (\<lambda>x. key x = key r) rows = []"
      using fresh by (simp add: filter_empty_conv)
    from False have nmem: "key r \<notin> fst ` set (d rows)"
      by (simp only: fst_set not_False_eq_True)
    have "set (d (rows @ [r])) =
        insert (key r, \<lparr>tokens_input = inp r, tokens_output = out r\<rparr>) (set (d rows))"
      using nmem by (simp only: step set_totals_add [OF dist] if_False)
    also have "set (d rows) = ?E (rows @ [r]) ` key ` set rows"
      unfolding elems
      using same by (intro image_cong) simp_all
    also have "(key r, \<lparr>tokens_input = inp r, tokens_output = out r\<rparr>) = ?E (rows @ [r]) (key r)"
      by (simp add: none)
    finally show ?thesis by simp
  qed
  from 1 2 show ?case by simp
qed

lemma fold_totals_sums:
  "(\<Sum>kv\<leftarrow>fold (\<lambda>r. totals_add (key r) (inp r) (out r)) rows []. tokens_input (snd kv)) = (\<Sum>r\<leftarrow>rows. inp r) \<and>
   (\<Sum>kv\<leftarrow>fold (\<lambda>r. totals_add (key r) (inp r) (out r)) rows []. tokens_output (snd kv)) = (\<Sum>r\<leftarrow>rows. out r)"
  by (induction rows rule: rev_induct) (simp_all add: sum_input_totals_add sum_output_totals_add)

section \<open>The report\<close>
lemma sum_list_filter_mset_cong:
  fixes f :: "'a \<Rightarrow> int"
  assumes "mset xs = mset ys"
  shows "sum_list (map f (filter P xs)) = sum_list (map f (filter P ys))"
proof -
  have "sum_mset (mset (map f (filter P xs))) = sum_mset (mset (map f (filter P ys)))"
    by (simp only: mset_map mset_filter assms)
  then show ?thesis
    by (simp only: sum_mset_sum_list)
qed

lemma sum_list_mset_cong:
  fixes f :: "'a \<Rightarrow> int"
  assumes "mset xs = mset ys"
  shows "sum_list (map f xs) = sum_list (map f ys)"
  using sum_list_filter_mset_cong [OF assms, of f "\<lambda>_. True"] by simp

lemma fold_totals_mset:
  fixes key :: "'r \<Rightarrow> string" and inp :: "'r \<Rightarrow> int" and out :: "'r \<Rightarrow> int"
  assumes "mset rows = mset rows'"
  shows "mset (fold (\<lambda>r. totals_add (key r) (inp r) (out r)) rows []) =
         mset (fold (\<lambda>r. totals_add (key r) (inp r) (out r)) rows' [])"
proof -
  let ?d = "\<lambda>rows. fold (\<lambda>r. totals_add (key r) (inp r) (out r)) rows []"
  let ?E = "\<lambda>rows k. (k, \<lparr>tokens_input = (\<Sum>r\<leftarrow>filter (\<lambda>r. key r = k) rows. inp r),
                      tokens_output = (\<Sum>r\<leftarrow>filter (\<lambda>r. key r = k) rows. out r)\<rparr>)"
  have dist: "distinct (?d rs)" for rs
  proof -
    have "distinct (map fst (?d rs))"
      using fold_totals [of key inp out rs] by simp
    then show ?thesis by (simp add: distinct_map)
  qed
  from assms have sets: "set rows = set rows'"
    by (rule mset_eq_setD)
  have E: "?E rows = ?E rows'"
    by (simp only: sum_list_filter_mset_cong [OF assms])
  have 1: "set (?d rows) = ?E rows ` key ` set rows"
    using fold_totals [of key inp out rows] by (rule conjunct2)
  have 2: "set (?d rows') = ?E rows' ` key ` set rows'"
    using fold_totals [of key inp out rows'] by (rule conjunct2)
  have "set (?d rows) = set (?d rows')"
    by (simp only: 1 2 E sets)
  with dist [of rows] dist [of rows'] show ?thesis
    by (simp only: set_eq_iff_mset_eq_distinct)
qed

lemma map_filter_inj_on:
  assumes "inj_on g (set xs)"
  shows "map g (filter P xs) = filter (\<lambda>k. \<exists>e\<in>set xs. g e = k \<and> P e) (map g xs)"
proof -
  have "filter (\<lambda>k. \<exists>e\<in>set xs. g e = k \<and> P e) (map g xs) = map g (filter (\<lambda>x. \<exists>e\<in>set xs. g e = g x \<and> P e) xs)"
    by (simp add: filter_map comp_def)
  also have "filter (\<lambda>x. \<exists>e\<in>set xs. g e = g x \<and> P e) xs = filter P xs"
    using assms by (intro filter_cong) (auto dest: inj_onD)
  finally show ?thesis by simp
qed

lemma fold_UsageData_add:
  "input_tokens (fold (\<lambda>m acc. UsageData_add acc (f m)) ms a) = input_tokens a + (\<Sum>m\<leftarrow>ms. input_tokens (f m)) \<and>
   output_tokens (fold (\<lambda>m acc. UsageData_add acc (f m)) ms a) = output_tokens a + (\<Sum>m\<leftarrow>ms. output_tokens (f m)) \<and>
   total_tokens (fold (\<lambda>m acc. UsageData_add acc (f m)) ms a) = total_tokens a + (\<Sum>m\<leftarrow>ms. total_tokens (f m))"
  by (induction ms arbitrary: a) simp_all

lemma tokens_usage_fields [simp]:
  "input_tokens (tokens_usage t) = tokens_input t"
  "output_tokens (tokens_usage t) = tokens_output t"
  "total_tokens (tokens_usage t) = tokens_input t + tokens_output t"
  "cost_usd (tokens_usage t) = Finite 0"
  by (simp_all add: tokens_usage_def)

lemma model_entry_fields [simp]:
  "model (model_entry kv) = fst kv"
  "ModelUsage.usage (model_entry kv) = tokens_usage (snd kv)"
  by (simp_all add: model_entry_def)

lemma key_entry_fields [simp]:
  "key_id (key_entry kv) = fst kv"
  "key_hint (key_entry kv) = key_hint_of (fst kv)"
  "ApiKeyUsage.usage (key_entry kv) = tokens_usage (snd kv)"
  by (simp_all add: key_entry_def)

lemma report_fields:
  "by_model (combine_data mu ku cd) =
     sort_key (\<lambda>x. - total_tokens (ModelUsage.usage x)) (map model_entry (over_buckets model_item_step mu))"
  "by_key (combine_data mu ku cd) =
     sort_key (\<lambda>x. - total_tokens (ApiKeyUsage.usage x)) (map key_entry (over_buckets key_item_step ku))"
  "total (combine_data mu ku cd) =
     (fold (\<lambda>m acc. UsageData_add acc (ModelUsage.usage m)) (map model_entry (over_buckets model_item_step mu))
        (UsageData_init None None None None))\<lparr>cost_usd := total_cost_of cd\<rparr>"
  by (simp_all add: combine_data_def Let_def)

text \<open>The two dictionaries, in terms of the rows.\<close>

lemma model_totals:
  "map fst (over_buckets model_item_step mu) = first_seen (map item_friendly_name (bucket_rows mu))"
  "set (over_buckets model_item_step mu) =
     (\<lambda>k. (k, \<lparr>tokens_input = (\<Sum>r\<leftarrow>filter (\<lambda>r. item_friendly_name r = k) (bucket_rows mu). model_item_input r),
                tokens_output = (\<Sum>r\<leftarrow>filter (\<lambda>r. item_friendly_name r = k) (bucket_rows mu).
                                   dict_get (item_output_tokens r) 0)\<rparr>)) `
       item_friendly_name ` set (bucket_rows mu)"
  using fold_totals [of item_friendly_name model_item_input "\<lambda>r. dict_get (item_output_tokens r) 0" "bucket_rows mu"]
  unfolding over_buckets_rows model_item_step_def [abs_def] by simp_all

lemma key_totals:
  "map fst (over_buckets key_item_step ku) = first_seen (map item_key_id (bucket_rows ku))"
  "set (over_buckets key_item_step ku) =
     (\<lambda>k. (k, \<lparr>tokens_input = (\<Sum>r\<leftarrow>filter (\<lambda>r. item_key_id r = k) (bucket_rows ku). key_item_input r),
                tokens_output = (\<Sum>r\<leftarrow>filter (\<lambda>r. item_key_id r = k) (bucket_rows ku).
                                   dict_get (item_output_tokens r) 0)\<rparr>)) `
       item_key_id ` set (bucket_rows ku)"
  using fold_totals [of item_key_id key_item_input "\<lambda>r. dict_get (item_output_tokens r) 0" "bucket_rows ku"]
  unfolding over_buckets_rows key_item_step_def [abs_def] by simp_all

lemma model_totals_sums:
  "(\<Sum>kv\<leftarrow>over_buckets model_item_step mu. tokens_input (snd kv)) = (\<Sum>r\<leftarrow>bucket_rows mu. model_item_input r)"
  "(\<Sum>kv\<leftarrow>over_buckets model_item_step mu. tokens_output (snd kv)) =
     (\<Sum>r\<leftarrow>bucket_rows mu. dict_get (item_output_tokens r) 0)"
  using fold_totals_sums [of item_friendly_name model_item_input "\<lambda>r. dict_get (item_output_tokens r) 0" "bucket_rows mu"]
  unfolding over_buckets_rows model_item_step_def [abs_def] by simp_all

lemma model_totals_mset:
  "mset (bucket_rows mu) = mset (bucket_rows mu') \<Longrightarrow>
   mset (over_buckets model_item_step mu) = mset (over_buckets model_item_step mu')"
  unfolding over_buckets_rows model_item_step_def [abs_def] by (rule fold_totals_mset)

lemma key_totals_mset:
  "mset (bucket_rows ku) = mset (bucket_rows ku') \<Longrightarrow>
   mset (over_buckets key_item_step ku) = mset (over_buckets key_item_step ku')"
  unfolding over_buckets_rows key_item_step_def [abs_def] by (rule fold_totals_mset)

lemma model_item_input_eq:
  "model_item_input item =
     dict_get (item_uncached_input_tokens item) 0 + dict_get (item_cache_read_input_tokens item) 0 +
     (case item_cache_creation item of None \<Rightarrow> 0 | Some c \<Rightarrow> dict_get (ephemeral_1h_input_tokens c) 0) +
     (case item_cache_creation item of None \<Rightarrow> 0 | Some c \<Rightarrow> dict_get (ephemeral_5m_input_tokens c) 0)"
  by (simp add: model_item_input_def Let_def split: option.split)

text \<open>The grand total, field by field.\<close>

lemma total_fields:
  "input_tokens (total (combine_data mu ku cd)) = (\<Sum>r\<leftarrow>bucket_rows mu. model_item_input r)"
  "output_tokens (total (combine_data mu ku cd)) = (\<Sum>r\<leftarrow>bucket_rows mu. dict_get (item_output_tokens r) 0)"
  "total_tokens (total (combine_data mu ku cd)) =
     (\<Sum>r\<leftarrow>bucket_rows mu. model_item_input r) + (\<Sum>r\<leftarrow>bucket_rows mu. dict_get (item_output_tokens r) 0)"
  "cost_usd (total (combine_data mu ku cd)) = total_cost_of cd"
proof -
  let ?d = "over_buckets model_item_step mu"
  note f = fold_UsageData_add [of ModelUsage.usage "map model_entry ?d" "UsageData_init None None None None"]
  have i: "(\<Sum>m\<leftarrow>map model_entry ?d. input_tokens (ModelUsage.usage m)) = (\<Sum>kv\<leftarrow>?d. tokens_input (snd kv))"
    by (simp add: comp_def)
  have out: "(\<Sum>m\<leftarrow>map model_entry ?d. output_tokens (ModelUsage.usage m)) = (\<Sum>kv\<leftarrow>?d. tokens_output (snd kv))"
    by (simp add: comp_def)
  have t: "(\<Sum>m\<leftarrow>map model_entry ?d. total_tokens (ModelUsage.usage m)) =
           (\<Sum>kv\<leftarrow>?d. tokens_input (snd kv)) + (\<Sum>kv\<leftarrow>?d. tokens_output (snd kv))"
    by (simp add: comp_def sum_list_addf)
  show "input_tokens (total (combine_data mu ku cd)) = (\<Sum>r\<leftarrow>bucket_rows mu. model_item_input r)"
    using f by (simp add: report_fields i model_totals_sums del: map_map)
  show "output_tokens (total (combine_data mu ku cd)) = (\<Sum>r\<leftarrow>bucket_rows mu. dict_get (item_output_tokens r) 0)"
    using f by (simp add: report_fields out model_totals_sums del: map_map)
  show "total_tokens (total (combine_data mu ku cd)) =
     (\<Sum>r\<leftarrow>bucket_rows mu. model_item_input r) + (\<Sum>r\<leftarrow>bucket_rows mu. dict_get (item_output_tokens r) 0)"
    using f by (simp add: report_fields t model_totals_sums del: map_map)
  show "cost_usd (total (combine_data mu ku cd)) = total_cost_of cd"
    by (simp add: report_fields)
qed


section \<open>The summaries of the report\<close>
lemma entries_model:
  "map model (map model_entry d) = map fst d"
  by simp

lemma by_model_mset:
  "mset (by_model (combine_data mu ku cd)) = mset (map model_entry (over_buckets model_item_step mu))"
  by (simp add: report_fields)

lemma by_key_mset:
  "mset (by_key (combine_data mu ku cd)) = mset (map key_entry (over_buckets key_item_step ku))"
  by (simp add: report_fields)

lemma by_model_set:
  "set (by_model (combine_data mu ku cd)) = model_entry ` set (over_buckets model_item_step mu)"
  by (simp add: report_fields)

lemma by_key_set:
  "set (by_key (combine_data mu ku cd)) = key_entry ` set (over_buckets key_item_step ku)"
  by (simp add: report_fields)

lemma by_model_names:
  "mset (map model (by_model (combine_data mu ku cd))) =
   mset (first_seen (map item_friendly_name (bucket_rows mu)))"
proof -
  have "mset (map model (by_model (combine_data mu ku cd))) = image_mset model (mset (by_model (combine_data mu ku cd)))"
    by simp
  also have "\<dots> = image_mset model (mset (map model_entry (over_buckets model_item_step mu)))"
    by (simp only: by_model_mset)
  also have "\<dots> = mset (map fst (over_buckets model_item_step mu))"
    by (simp add: multiset.map_comp comp_def)
  finally show ?thesis by (simp only: model_totals)
qed

lemma by_key_names:
  "mset (map key_id (by_key (combine_data mu ku cd))) =
   mset (first_seen (map item_key_id (bucket_rows ku)))"
proof -
  have "mset (map key_id (by_key (combine_data mu ku cd))) = image_mset key_id (mset (by_key (combine_data mu ku cd)))"
    by simp
  also have "\<dots> = image_mset key_id (mset (map key_entry (over_buckets key_item_step ku)))"
    by (simp only: by_key_mset)
  also have "\<dots> = mset (map fst (over_buckets key_item_step ku))"
    by (simp add: multiset.map_comp comp_def)
  finally show ?thesis by (simp only: key_totals)
qed

lemma by_model_distinct: "distinct (map model (by_model (combine_data mu ku cd)))"
  using by_model_names [of mu ku cd] distinct_first_seen
  by (metis mset_eq_imp_distinct_iff)

lemma by_key_distinct: "distinct (map key_id (by_key (combine_data mu ku cd)))"
  using by_key_names [of mu ku cd] distinct_first_seen
  by (metis mset_eq_imp_distinct_iff)

lemma by_model_entry:
  assumes "e \<in> set (by_model (combine_data mu ku cd))"
  shows "model e \<in> item_friendly_name ` set (bucket_rows mu) \<and>
     input_tokens (ModelUsage.usage e) =
       (\<Sum>r\<leftarrow>filter (\<lambda>r. item_friendly_name r = model e) (bucket_rows mu). model_item_input r) \<and>
     output_tokens (ModelUsage.usage e) =
       (\<Sum>r\<leftarrow>filter (\<lambda>r. item_friendly_name r = model e) (bucket_rows mu). dict_get (item_output_tokens r) 0) \<and>
     total_tokens (ModelUsage.usage e) = input_tokens (ModelUsage.usage e) + output_tokens (ModelUsage.usage e) \<and>
     cost_usd (ModelUsage.usage e) = Finite 0"
proof -
  from assms obtain kv where kv: "kv \<in> set (over_buckets model_item_step mu)" "e = model_entry kv"
    by (auto simp: by_model_set)
  from kv(1) obtain k where "k \<in> item_friendly_name ` set (bucket_rows mu)"
    "kv = (k, \<lparr>tokens_input = (\<Sum>r\<leftarrow>filter (\<lambda>r. item_friendly_name r = k) (bucket_rows mu). model_item_input r),
                tokens_output = (\<Sum>r\<leftarrow>filter (\<lambda>r. item_friendly_name r = k) (bucket_rows mu).
                                   dict_get (item_output_tokens r) 0)\<rparr>)"
    unfolding model_totals(2) by blast
  with kv(2) show ?thesis by simp
qed

lemma by_key_entry:
  assumes "e \<in> set (by_key (combine_data mu ku cd))"
  shows "key_id e \<in> item_key_id ` set (bucket_rows ku) \<and>
     key_hint e = key_hint_of (key_id e) \<and>
     input_tokens (ApiKeyUsage.usage e) =
       (\<Sum>r\<leftarrow>filter (\<lambda>r. item_key_id r = key_id e) (bucket_rows ku). key_item_input r) \<and>
     output_tokens (ApiKeyUsage.usage e) =
       (\<Sum>r\<leftarrow>filter (\<lambda>r. item_key_id r = key_id e) (bucket_rows ku). dict_get (item_output_tokens r) 0) \<and>
     total_tokens (ApiKeyUsage.usage e) = input_tokens (ApiKeyUsage.usage e) + output_tokens (ApiKeyUsage.usage e) \<and>
     cost_usd (ApiKeyUsage.usage e) = Finite 0"
proof -
  from assms obtain kv where kv: "kv \<in> set (over_buckets key_item_step ku)" "e = key_entry kv"
    by (auto simp: by_key_set)
  from kv(1) obtain k where "k \<in> item_key_id ` set (bucket_rows ku)"
    "kv = (k, \<lparr>tokens_input = (\<Sum>r\<leftarrow>filter (\<lambda>r. item_key_id r = k) (bucket_rows ku). key_item_input r),
                tokens_output = (\<Sum>r\<leftarrow>filter (\<lambda>r. item_key_id r = k) (bucket_rows ku).
                                   dict_get (item_output_tokens r) 0)\<rparr>)"
    unfolding key_totals(2) by blast
  with kv(2) show ?thesis by simp
qed

lemma by_model_name_set:
  "model ` set (by_model (combine_data mu ku cd)) = item_friendly_name ` set (bucket_rows mu)"
proof -
  have "set (map model (by_model (combine_data mu ku cd))) = set (first_seen (map item_friendly_name (bucket_rows mu)))"
    using by_model_names [of mu ku cd] by (rule mset_eq_setD)
  then show ?thesis by simp
qed

lemma by_key_id_set:
  "key_id ` set (by_key (combine_data mu ku cd)) = item_key_id ` set (bucket_rows ku)"
proof -
  have "set (map key_id (by_key (combine_data mu ku cd))) = set (first_seen (map item_key_id (bucket_rows ku)))"
    using by_key_names [of mu ku cd] by (rule mset_eq_setD)
  then show ?thesis by simp
qed


section \<open>Aggregation by model\<close>
lemma by_model_sums:
  "(\<Sum>e\<leftarrow>by_model (combine_data mu ku cd). input_tokens (ModelUsage.usage e)) = (\<Sum>r\<leftarrow>bucket_rows mu. model_item_input r)"
  "(\<Sum>e\<leftarrow>by_model (combine_data mu ku cd). output_tokens (ModelUsage.usage e)) =
     (\<Sum>r\<leftarrow>bucket_rows mu. dict_get (item_output_tokens r) 0)"
  "(\<Sum>e\<leftarrow>by_model (combine_data mu ku cd). total_tokens (ModelUsage.usage e)) =
     (\<Sum>r\<leftarrow>bucket_rows mu. model_item_input r) + (\<Sum>r\<leftarrow>bucket_rows mu. dict_get (item_output_tokens r) 0)"
proof -
  let ?d = "over_buckets model_item_step mu"
  have perm: "(\<Sum>e\<leftarrow>by_model (combine_data mu ku cd). f e) = (\<Sum>e\<leftarrow>map model_entry ?d. f e)" for f :: "ModelUsage \<Rightarrow> int"
    by (rule sum_list_mset_cong) (rule by_model_mset)
  show "(\<Sum>e\<leftarrow>by_model (combine_data mu ku cd). input_tokens (ModelUsage.usage e)) = (\<Sum>r\<leftarrow>bucket_rows mu. model_item_input r)"
    by (simp add: perm comp_def model_totals_sums)
  show "(\<Sum>e\<leftarrow>by_model (combine_data mu ku cd). output_tokens (ModelUsage.usage e)) =
     (\<Sum>r\<leftarrow>bucket_rows mu. dict_get (item_output_tokens r) 0)"
    by (simp add: perm comp_def model_totals_sums)
  show "(\<Sum>e\<leftarrow>by_model (combine_data mu ku cd). total_tokens (ModelUsage.usage e)) =
     (\<Sum>r\<leftarrow>bucket_rows mu. model_item_input r) + (\<Sum>r\<leftarrow>bucket_rows mu. dict_get (item_output_tokens r) 0)"
    by (simp add: perm comp_def sum_list_addf model_totals_sums)
qed

lemma by_model_mset_cong:
  assumes "mset (bucket_rows mu') = mset (bucket_rows mu)"
  shows "mset (by_model (combine_data mu' ku' cd')) = mset (by_model (combine_data mu ku cd))"
  by (simp only: by_model_mset mset_map model_totals_mset [OF assms])

text \<open>
  C1: every row counts its uncached, cache-read and the two cache-creation input
  tokens as input and its output tokens as output; there is exactly one summary for
  each friendly name among the rows, holding the sums over the rows of that name, with
  the total the sum of the two; the token fields of the grand total are the sums over
  the summaries; and rows in another order (within or across buckets) give the same
  grand total and the same summaries.
\<close>

theorem combine_data_by_model:
  "distinct (map model (by_model (combine_data mu ku cd))) \<and>
   model ` set (by_model (combine_data mu ku cd)) = item_friendly_name ` set (bucket_rows mu) \<and>
   (\<forall>e\<in>set (by_model (combine_data mu ku cd)).
      input_tokens (ModelUsage.usage e) =
        (\<Sum>item\<leftarrow>filter (\<lambda>item. item_friendly_name item = model e) (bucket_rows mu).
           dict_get (item_uncached_input_tokens item) 0 + dict_get (item_cache_read_input_tokens item) 0 +
           (case item_cache_creation item of None \<Rightarrow> 0 | Some c \<Rightarrow> dict_get (ephemeral_1h_input_tokens c) 0) +
           (case item_cache_creation item of None \<Rightarrow> 0 | Some c \<Rightarrow> dict_get (ephemeral_5m_input_tokens c) 0)) \<and>
      output_tokens (ModelUsage.usage e) =
        (\<Sum>item\<leftarrow>filter (\<lambda>item. item_friendly_name item = model e) (bucket_rows mu).
           dict_get (item_output_tokens item) 0) \<and>
      total_tokens (ModelUsage.usage e) =
        input_tokens (ModelUsage.usage e) + output_tokens (ModelUsage.usage e)) \<and>
   input_tokens (total (combine_data mu ku cd)) =
     (\<Sum>e\<leftarrow>by_model (combine_data mu ku cd). input_tokens (ModelUsage.usage e)) \<and>
   output_tokens (total (combine_data mu ku cd)) =
     (\<Sum>e\<leftarrow>by_model (combine_data mu ku cd). output_tokens (ModelUsage.usage e)) \<and>
   total_tokens (total (combine_data mu ku cd)) =
     (\<Sum>e\<leftarrow>by_model (combine_data mu ku cd). total_tokens (ModelUsage.usage e)) \<and>
   (mset (bucket_rows mu') = mset (bucket_rows mu) \<longrightarrow>
      input_tokens (total (combine_data mu' ku cd)) = input_tokens (total (combine_data mu ku cd)) \<and>
      output_tokens (total (combine_data mu' ku cd)) = output_tokens (total (combine_data mu ku cd)) \<and>
      total_tokens (total (combine_data mu' ku cd)) = total_tokens (total (combine_data mu ku cd)) \<and>
      mset (by_model (combine_data mu' ku cd)) = mset (by_model (combine_data mu ku cd)))"
proof (intro conjI ballI impI)
  show "distinct (map model (by_model (combine_data mu ku cd)))"
    by (rule by_model_distinct)
  show "model ` set (by_model (combine_data mu ku cd)) = item_friendly_name ` set (bucket_rows mu)"
    by (rule by_model_name_set)
next
  fix e assume e: "e \<in> set (by_model (combine_data mu ku cd))"
  show "input_tokens (ModelUsage.usage e) =
        (\<Sum>item\<leftarrow>filter (\<lambda>item. item_friendly_name item = model e) (bucket_rows mu).
           dict_get (item_uncached_input_tokens item) 0 + dict_get (item_cache_read_input_tokens item) 0 +
           (case item_cache_creation item of None \<Rightarrow> 0 | Some c \<Rightarrow> dict_get (ephemeral_1h_input_tokens c) 0) +
           (case item_cache_creation item of None \<Rightarrow> 0 | Some c \<Rightarrow> dict_get (ephemeral_5m_input_tokens c) 0))"
    using by_model_entry [OF e] by (simp only: model_item_input_eq)
  show "output_tokens (ModelUsage.usage e) =
        (\<Sum>item\<leftarrow>filter (\<lambda>item. item_friendly_name item = model e) (bucket_rows mu).
           dict_get (item_output_tokens item) 0)"
    using by_model_entry [OF e] by simp
  show "total_tokens (ModelUsage.usage e) =
        input_tokens (ModelUsage.usage e) + output_tokens (ModelUsage.usage e)"
    using by_model_entry [OF e] by simp
next
  show "input_tokens (total (combine_data mu ku cd)) =
     (\<Sum>e\<leftarrow>by_model (combine_data mu ku cd). input_tokens (ModelUsage.usage e))"
    by (simp only: total_fields by_model_sums)
  show "output_tokens (total (combine_data mu ku cd)) =
     (\<Sum>e\<leftarrow>by_model (combine_data mu ku cd). output_tokens (ModelUsage.usage e))"
    by (simp only: total_fields by_model_sums)
  show "total_tokens (total (combine_data mu ku cd)) =
     (\<Sum>e\<leftarrow>by_model (combine_data mu ku cd). total_tokens (ModelUsage.usage e))"
    by (simp only: total_fields by_model_sums)
next
  assume p: "mset (bucket_rows mu') = mset (bucket_rows mu)"
  show "input_tokens (total (combine_data mu' ku cd)) = input_tokens (total (combine_data mu ku cd))"
    by (simp only: total_fields sum_list_mset_cong [OF p])
  show "output_tokens (total (combine_data mu' ku cd)) = output_tokens (total (combine_data mu ku cd))"
    by (simp only: total_fields sum_list_mset_cong [OF p])
  show "total_tokens (total (combine_data mu' ku cd)) = total_tokens (total (combine_data mu ku cd))"
    by (simp only: total_fields sum_list_mset_cong [OF p])
  show "mset (by_model (combine_data mu' ku cd)) = mset (by_model (combine_data mu ku cd))"
    using p by (rule by_model_mset_cong)
qed


text \<open>
  Two rows whose model identifiers both become \<open>Opus\<close>, with 100 and 200 input and 50 and
  10 output tokens, in two buckets and in the two orders.
\<close>

theorem combine_data_by_model_witness:
  "mset (bucket_rows
       [\<lparr>results = Some [\<lparr>item_model = Some ''claude-3-opus-20240229'', item_api_key_id = None,
                            item_uncached_input_tokens = Some 200, item_cache_read_input_tokens = None,
                            item_cache_creation = None, item_output_tokens = Some 10\<rparr>]\<rparr>,
        \<lparr>results = Some [\<lparr>item_model = Some ''claude-opus-4-20250514'', item_api_key_id = None,
                            item_uncached_input_tokens = Some 60, item_cache_read_input_tokens = Some 25,
                            item_cache_creation = Some \<lparr>ephemeral_1h_input_tokens = Some 10,
                                                         ephemeral_5m_input_tokens = Some 5\<rparr>,
                            item_output_tokens = Some 50\<rparr>]\<rparr>]) =
   mset (bucket_rows
       [\<lparr>results = Some [\<lparr>item_model = Some ''claude-opus-4-20250514'', item_api_key_id = None,
                            item_uncached_input_tokens = Some 60, item_cache_read_input_tokens = Some 25,
                            item_cache_creation = Some \<lparr>ephemeral_1h_input_tokens = Some 10,
                                                         ephemeral_5m_input_tokens = Some 5\<rparr>,
                            item_output_tokens = Some 50\<rparr>]\<rparr>,
        \<lparr>results = Some [\<lparr>item_model = Some ''claude-3-opus-20240229'', item_api_key_id = None,
                            item_uncached_input_tokens = Some 200, item_cache_read_input_tokens = None,
                            item_cache_creation = None, item_output_tokens = Some 10\<rparr>]\<rparr>]) \<and>
   by_model (combine_data
       [\<lparr>results = Some [\<lparr>item_model = Some ''claude-opus-4-20250514'', item_api_key_id = None,
                            item_uncached_input_tokens = Some 60, item_cache_read_input_tokens = Some 25,
                            item_cache_creation = Some \<lparr>ephemeral_1h_input_tokens = Some 10,
                                                         ephemeral_5m_input_tokens = Some 5\<rparr>,
                            item_output_tokens = Some 50\<rparr>]\<rparr>,
        \<lparr>results = Some [\<lparr>item_model = Some ''claude-3-opus-20240229'', item_api_key_id = None,
                            item_uncached_input_tokens = Some 200, item_cache_read_input_tokens = None,
                            item_cache_creation = None, item_output_tokens = Some 10\<rparr>]\<rparr>] [] []) =
     [\<lparr>model = ''Opus'',
       usage = \<lparr>input_tokens = 300, output_tokens = 60, total_tokens = 360, cost_usd = Finite 0\<rparr>\<rparr>] \<and>
   total_tokens (total (combine_data
       [\<lparr>results = Some [\<lparr>item_model = Some ''claude-opus-4-20250514'', item_api_key_id = None,
                            item_uncached_input_tokens = Some 60, item_cache_read_input_tokens = Some 25,
                            item_cache_creation = Some \<lparr>ephemeral_1h_input_tokens = Some 10,
                                                         ephemeral_5m_input_tokens = Some 5\<rparr>,
                            item_output_tokens = Some 50\<rparr>]\<rparr>,
        \<lparr>results = Some [\<lparr>item_model = Some ''claude-3-opus-20240229'', item_api_key_id = None,
                            item_uncached_input_tokens = Some 200, item_cache_read_input_tokens = None,
                            item_cache_creation = None, item_output_tokens = Some 10\<rparr>]\<rparr>] [] [])) = 360 \<and>
   total_tokens (total (combine_data
       [\<lparr>results = Some [\<lparr>item_model = Some ''claude-3-opus-20240229'', item_api_key_id = None,
                            item_uncached_input_tokens = Some 200, item_cache_read_input_tokens = None,
                            item_cache_creation = None, item_output_tokens = Some 10\<rparr>]\<rparr>,
        \<lparr>results = Some [\<lparr>item_model = Some ''claude-opus-4-20250514'', item_api_key_id = None,
                            item_uncached_input_tokens = Some 60, item_cache_read_input_tokens = Some 25,
                            item_cache_creation = Some \<lparr>ephemeral_1h_input_tokens = Some 10,
                                                         ephemeral_5m_input_tokens = Some 5\<rparr>,
                            item_output_tokens = Some 50\<rparr>]\<rparr>] [] [])) = 360"
  (is "mset (bucket_rows ?mu') = mset (bucket_rows ?mu) \<and> by_model (combine_data ?mu [] []) = [?opus] \<and>
       total_tokens (total (combine_data ?mu [] [])) = 360 \<and> total_tokens (total (combine_data ?mu' [] [])) = 360")
proof -
  have perm: "mset (bucket_rows ?mu') = mset (bucket_rows ?mu)"
    by (simp add: bucket_rows_def)
  have entries: "by_model (combine_data ?mu [] []) = [?opus]"
    by code_simp
  have "total_tokens (total (combine_data ?mu [] [])) =
        (\<Sum>e\<leftarrow>by_model (combine_data ?mu [] []). total_tokens (ModelUsage.usage e))"
    using combine_data_by_model [of ?mu "[]" "[]" ?mu'] by blast
  then have t: "total_tokens (total (combine_data ?mu [] [])) = 360"
    by (simp only: entries) simp
  have "total_tokens (total (combine_data ?mu' [] [])) = total_tokens (total (combine_data ?mu [] []))"
    using combine_data_by_model [of ?mu "[]" "[]" ?mu'] perm by blast
  with perm entries t show ?thesis by simp
qed


section \<open>The invariant of the figures\<close>
lemma usage_invariant_add:
  "usage_invariant x \<Longrightarrow> usage_invariant y \<Longrightarrow> usage_invariant (UsageData_add x y)"
  by (simp add: usage_invariant_def)

text \<open>
  C8, as stated, fails: the constructor enforces nothing, and
  \<^verbatim>\<open>UsageData(input_tokens=5)\<close> has a total of 0.
\<close>

theorem usage_invariant_counterexample:
  "\<not> usage_invariant (UsageData_init (Some 5) None None None)"
  by (simp add: usage_invariant_def)

text \<open>
  C8, amended: the invariant \<open>total_tokens = input_tokens + output_tokens\<close> holds for the
  grand total and for the figures of every model and API key summary of a report, and
  the addition of two figures that satisfy it satisfies it.
\<close>

theorem usage_invariant_report:
  "usage_invariant (total (combine_data mu ku cd)) \<and>
   (\<forall>e\<in>set (by_model (combine_data mu ku cd)). usage_invariant (ModelUsage.usage e)) \<and>
   (\<forall>e\<in>set (by_key (combine_data mu ku cd)). usage_invariant (ApiKeyUsage.usage e)) \<and>
   (usage_invariant x \<and> usage_invariant y \<longrightarrow> usage_invariant (UsageData_add x y))"
proof (intro conjI ballI impI)
  show "usage_invariant (total (combine_data mu ku cd))"
    by (simp add: usage_invariant_def total_fields)
next
  fix e assume "e \<in> set (by_model (combine_data mu ku cd))"
  then show "usage_invariant (ModelUsage.usage e)"
    using by_model_entry [of e mu ku cd] by (simp add: usage_invariant_def)
next
  fix e assume "e \<in> set (by_key (combine_data mu ku cd))"
  then show "usage_invariant (ApiKeyUsage.usage e)"
    using by_key_entry [of e mu ku cd] by (simp add: usage_invariant_def)
next
  assume "usage_invariant x \<and> usage_invariant y"
  then show "usage_invariant (UsageData_add x y)"
    by (simp add: usage_invariant_add)
qed

text \<open>A report with one model summary and one key summary, and two figures to add.\<close>

theorem usage_invariant_report_witness:
  "by_model (combine_data
      [\<lparr>results = Some [\<lparr>item_model = Some ''claude-sonnet-4'', item_api_key_id = None,
                           item_uncached_input_tokens = Some 7, item_cache_read_input_tokens = Some 1,
                           item_cache_creation = None, item_output_tokens = Some 4\<rparr>]\<rparr>]
      [\<lparr>results = Some [\<lparr>item_model = None, item_api_key_id = Some ''key_1'',
                           item_uncached_input_tokens = Some 7, item_cache_read_input_tokens = Some 1,
                           item_cache_creation = None, item_output_tokens = Some 4\<rparr>]\<rparr>] []) =
     [\<lparr>model = ''Sonnet'',
       usage = \<lparr>input_tokens = 8, output_tokens = 4, total_tokens = 12, cost_usd = Finite 0\<rparr>\<rparr>] \<and>
   by_key (combine_data
      [\<lparr>results = Some [\<lparr>item_model = Some ''claude-sonnet-4'', item_api_key_id = None,
                           item_uncached_input_tokens = Some 7, item_cache_read_input_tokens = Some 1,
                           item_cache_creation = None, item_output_tokens = Some 4\<rparr>]\<rparr>]
      [\<lparr>results = Some [\<lparr>item_model = None, item_api_key_id = Some ''key_1'',
                           item_uncached_input_tokens = Some 7, item_cache_read_input_tokens = Some 1,
                           item_cache_creation = None, item_output_tokens = Some 4\<rparr>]\<rparr>] []) =
     [\<lparr>key_id = ''key_1'', key_hint = ''key_1'',
       usage = \<lparr>input_tokens = 8, output_tokens = 4, total_tokens = 12, cost_usd = Finite 0\<rparr>\<rparr>] \<and>
   usage_invariant (total (combine_data
      [\<lparr>results = Some [\<lparr>item_model = Some ''claude-sonnet-4'', item_api_key_id = None,
                           item_uncached_input_tokens = Some 7, item_cache_read_input_tokens = Some 1,
                           item_cache_creation = None, item_output_tokens = Some 4\<rparr>]\<rparr>]
      [\<lparr>results = Some [\<lparr>item_model = None, item_api_key_id = Some ''key_1'',
                           item_uncached_input_tokens = Some 7, item_cache_read_input_tokens = Some 1,
                           item_cache_creation = None, item_output_tokens = Some 4\<rparr>]\<rparr>] [])) \<and>
   usage_invariant \<lparr>input_tokens = 8, output_tokens = 4, total_tokens = 12, cost_usd = Finite 0\<rparr> \<and>
   usage_invariant (UsageData_init (Some 1) (Some 2) (Some 3) None) \<and>
   usage_invariant (UsageData_add \<lparr>input_tokens = 8, output_tokens = 4, total_tokens = 12, cost_usd = Finite 0\<rparr>
      (UsageData_init (Some 1) (Some 2) (Some 3) None))"
  (is "by_model (combine_data ?mu ?ku []) = [?m] \<and> by_key (combine_data ?mu ?ku []) = [?k] \<and> _ \<and> 
       usage_invariant ?x \<and> usage_invariant ?y \<and> _")
proof -
  have m: "by_model (combine_data ?mu ?ku []) = [?m]"
    by code_simp
  have k: "by_key (combine_data ?mu ?ku []) = [?k]"
    by code_simp
  have x: "usage_invariant ?x" and y: "usage_invariant ?y"
    by (simp_all add: usage_invariant_def)
  show ?thesis
    using usage_invariant_report [of ?mu ?ku "[]" ?x ?y] m k x y by simp
qed


section \<open>The order of the summaries\<close>
lemma sorted_desc:
  fixes g :: "'a \<Rightarrow> int"
  shows "sorted_wrt (\<lambda>a b. g b \<le> g a) (sort_key (\<lambda>x. - g x) xs)"
proof -
  have "sorted (map (\<lambda>x. - g x) (sort_key (\<lambda>x. - g x) xs))"
    by (rule sorted_sort_key)
  then show ?thesis
    by (simp add: sorted_map)
qed

lemma stable_desc:
  fixes g :: "'a \<Rightarrow> int"
  shows "filter (\<lambda>e. g e = t) (sort_key (\<lambda>x. - g x) xs) = filter (\<lambda>e. g e = t) xs"
  using sort_key_stable [of "\<lambda>x. - g x" "- t" xs] by simp

lemma ties_in_first_seen_order:
  fixes g :: "'a \<Rightarrow> int" and name :: "'a \<Rightarrow> string"
  assumes "distinct (map name xs)"
  shows "map name (filter (\<lambda>e. g e = t) (sort_key (\<lambda>x. - g x) xs)) =
         filter (\<lambda>k. \<exists>e\<in>set (sort_key (\<lambda>x. - g x) xs). name e = k \<and> g e = t) (map name xs)"
proof -
  from assms have "inj_on name (set xs)"
    by (simp add: distinct_map)
  then have "map name (filter (\<lambda>e. g e = t) xs) =
             filter (\<lambda>k. \<exists>e\<in>set xs. name e = k \<and> g e = t) (map name xs)"
    by (rule map_filter_inj_on)
  then show ?thesis
    by (simp add: stable_desc)
qed

text \<open>
  C7: the model summaries and the key summaries are in descending order of
  \<^verbatim>\<open>total_tokens\<close>, and the summaries with one and the same total stand in the order in
  which their names (or key identifiers) are first met among the rows.
\<close>

theorem combine_data_sorted_stable:
  "sorted_wrt (\<lambda>a b. total_tokens (ModelUsage.usage b) \<le> total_tokens (ModelUsage.usage a))
     (by_model (combine_data mu ku cd)) \<and>
   map model (filter (\<lambda>e. total_tokens (ModelUsage.usage e) = t) (by_model (combine_data mu ku cd))) =
     filter (\<lambda>k. \<exists>e\<in>set (by_model (combine_data mu ku cd)). model e = k \<and> total_tokens (ModelUsage.usage e) = t)
       (first_seen (map item_friendly_name (bucket_rows mu))) \<and>
   sorted_wrt (\<lambda>a b. total_tokens (ApiKeyUsage.usage b) \<le> total_tokens (ApiKeyUsage.usage a))
     (by_key (combine_data mu ku cd)) \<and>
   map key_id (filter (\<lambda>e. total_tokens (ApiKeyUsage.usage e) = t) (by_key (combine_data mu ku cd))) =
     filter (\<lambda>k. \<exists>e\<in>set (by_key (combine_data mu ku cd)). key_id e = k \<and> total_tokens (ApiKeyUsage.usage e) = t)
       (first_seen (map item_key_id (bucket_rows ku)))"
proof (intro conjI)
  let ?ms = "map model_entry (over_buckets model_item_step mu)"
  let ?ks = "map key_entry (over_buckets key_item_step ku)"
  have names: "map model ?ms = first_seen (map item_friendly_name (bucket_rows mu))"
    by (simp add: comp_def model_totals)
  have ids: "map key_id ?ks = first_seen (map item_key_id (bucket_rows ku))"
    by (simp add: comp_def key_totals)
  show "sorted_wrt (\<lambda>a b. total_tokens (ModelUsage.usage b) \<le> total_tokens (ModelUsage.usage a))
     (by_model (combine_data mu ku cd))"
    unfolding report_fields by (rule sorted_desc)
  show "sorted_wrt (\<lambda>a b. total_tokens (ApiKeyUsage.usage b) \<le> total_tokens (ApiKeyUsage.usage a))
     (by_key (combine_data mu ku cd))"
    unfolding report_fields by (rule sorted_desc)
  have "distinct (map model ?ms)"
    by (simp only: names distinct_first_seen)
  from ties_in_first_seen_order [OF this, of "\<lambda>e. total_tokens (ModelUsage.usage e)" t]
  show "map model (filter (\<lambda>e. total_tokens (ModelUsage.usage e) = t) (by_model (combine_data mu ku cd))) =
     filter (\<lambda>k. \<exists>e\<in>set (by_model (combine_data mu ku cd)). model e = k \<and> total_tokens (ModelUsage.usage e) = t)
       (first_seen (map item_friendly_name (bucket_rows mu)))"
    by (simp only: report_fields names)
  have "distinct (map key_id ?ks)"
    by (simp only: ids distinct_first_seen)
  from ties_in_first_seen_order [OF this, of "\<lambda>e. total_tokens (ApiKeyUsage.usage e)" t]
  show "map key_id (filter (\<lambda>e. total_tokens (ApiKeyUsage.usage e) = t) (by_key (combine_data mu ku cd))) =
     filter (\<lambda>k. \<exists>e\<in>set (by_key (combine_data mu ku cd)). key_id e = k \<and> total_tokens (ApiKeyUsage.usage e) = t)
       (first_seen (map item_key_id (bucket_rows ku)))"
    by (simp only: report_fields ids)
qed


text \<open>
  Three models, of which \<open>Haiku\<close> (met first) and \<open>Sonnet\<close> (met last) both total 10
  tokens, and \<open>Opus\<close> 30.
\<close>

theorem combine_data_sorted_stable_witness:
  "by_model (combine_data
      [\<lparr>results = Some
          [\<lparr>item_model = Some ''claude-3-5-haiku'', item_api_key_id = None,
            item_uncached_input_tokens = Some 5, item_cache_read_input_tokens = None,
            item_cache_creation = None, item_output_tokens = Some 5\<rparr>,
           \<lparr>item_model = Some ''claude-opus-4'', item_api_key_id = None,
            item_uncached_input_tokens = Some 20, item_cache_read_input_tokens = None,
            item_cache_creation = None, item_output_tokens = Some 10\<rparr>,
           \<lparr>item_model = Some ''claude-sonnet-4'', item_api_key_id = None,
            item_uncached_input_tokens = Some 7, item_cache_read_input_tokens = None,
            item_cache_creation = None, item_output_tokens = Some 3\<rparr>]\<rparr>] [] []) =
     [\<lparr>model = ''Opus'',
       usage = \<lparr>input_tokens = 20, output_tokens = 10, total_tokens = 30, cost_usd = Finite 0\<rparr>\<rparr>,
      \<lparr>model = ''Haiku'',
       usage = \<lparr>input_tokens = 5, output_tokens = 5, total_tokens = 10, cost_usd = Finite 0\<rparr>\<rparr>,
      \<lparr>model = ''Sonnet'',
       usage = \<lparr>input_tokens = 7, output_tokens = 3, total_tokens = 10, cost_usd = Finite 0\<rparr>\<rparr>] \<and>
   filter (\<lambda>k. \<exists>e\<in>set (by_model (combine_data
      [\<lparr>results = Some
          [\<lparr>item_model = Some ''claude-3-5-haiku'', item_api_key_id = None,
            item_uncached_input_tokens = Some 5, item_cache_read_input_tokens = None,
            item_cache_creation = None, item_output_tokens = Some 5\<rparr>,
           \<lparr>item_model = Some ''claude-opus-4'', item_api_key_id = None,
            item_uncached_input_tokens = Some 20, item_cache_read_input_tokens = None,
            item_cache_creation = None, item_output_tokens = Some 10\<rparr>,
           \<lparr>item_model = Some ''claude-sonnet-4'', item_api_key_id = None,
            item_uncached_input_tokens = Some 7, item_cache_read_input_tokens = None,
            item_cache_creation = None, item_output_tokens = Some 3\<rparr>]\<rparr>] [] [])).
               model e = k \<and> total_tokens (ModelUsage.usage e) = 10)
     (first_seen (map item_friendly_name (bucket_rows
      [\<lparr>results = Some
          [\<lparr>item_model = Some ''claude-3-5-haiku'', item_api_key_id = None,
            item_uncached_input_tokens = Some 5, item_cache_read_input_tokens = None,
            item_cache_creation = None, item_output_tokens = Some 5\<rparr>,
           \<lparr>item_model = Some ''claude-opus-4'', item_api_key_id = None,
            item_uncached_input_tokens = Some 20, item_cache_read_input_tokens = None,
            item_cache_creation = None, item_output_tokens = Some 10\<rparr>,
           \<lparr>item_model = Some ''claude-sonnet-4'', item_api_key_id = None,
            item_uncached_input_tokens = Some 7, item_cache_read_input_tokens = None,
            item_cache_creation = None, item_output_tokens = Some 3\<rparr>]\<rparr>]))) =
     [''Haiku'', ''Sonnet'']"
  (is "by_model (combine_data ?mu [] []) = ?sorted \<and> _")
proof -
  have ev: "by_model (combine_data ?mu [] []) = ?sorted"
    by code_simp
  have "map model (filter (\<lambda>e. total_tokens (ModelUsage.usage e) = 10) (by_model (combine_data ?mu [] []))) =
        [''Haiku'', ''Sonnet'']"
    by (simp only: ev) simp
  with combine_data_sorted_stable [of ?mu "[]" "[]" 10] ev show ?thesis
    by (simp only: simp_thms)
qed


section \<open>Aggregation by API key\<close>

text \<open>
  C2: there is exactly one summary for each key identifier among the rows, where a row
  without an identifier counts for \<open>workbench\<close>; its input tokens are the sums of the
  uncached and the cache-read input tokens of its rows and of nothing else; and its
  hint is \<open>Workbench\<close> for \<open>workbench\<close>, three dots and the last six characters for
  any other identifier of more than six characters, and the identifier itself
  otherwise.
\<close>

theorem combine_data_by_key:
  "distinct (map key_id (by_key (combine_data mu ku cd))) \<and>
   key_id ` set (by_key (combine_data mu ku cd)) = item_key_id ` set (bucket_rows ku) \<and>
   (\<forall>item\<in>set (bucket_rows ku).
      item_key_id item =
        (if item_api_key_id item = None \<or> item_api_key_id item = Some [] then ''workbench''
         else the (item_api_key_id item))) \<and>
   (\<forall>e\<in>set (by_key (combine_data mu ku cd)).
      input_tokens (ApiKeyUsage.usage e) =
        (\<Sum>item\<leftarrow>filter (\<lambda>item. item_key_id item = key_id e) (bucket_rows ku).
           dict_get (item_uncached_input_tokens item) 0 + dict_get (item_cache_read_input_tokens item) 0) \<and>
      output_tokens (ApiKeyUsage.usage e) =
        (\<Sum>item\<leftarrow>filter (\<lambda>item. item_key_id item = key_id e) (bucket_rows ku).
           dict_get (item_output_tokens item) 0) \<and>
      total_tokens (ApiKeyUsage.usage e) =
        input_tokens (ApiKeyUsage.usage e) + output_tokens (ApiKeyUsage.usage e) \<and>
      key_hint e =
        (if key_id e = ''workbench'' then ''Workbench''
         else if 6 < length (key_id e) then ''...'' @ drop (length (key_id e) - 6) (key_id e)
         else key_id e))"
proof (intro conjI ballI)
  show "distinct (map key_id (by_key (combine_data mu ku cd)))"
    by (rule by_key_distinct)
  show "key_id ` set (by_key (combine_data mu ku cd)) = item_key_id ` set (bucket_rows ku)"
    by (rule by_key_id_set)
next
  fix item
  show "item_key_id item =
        (if item_api_key_id item = None \<or> item_api_key_id item = Some [] then ''workbench''
         else the (item_api_key_id item))"
    by (auto simp: item_key_id_def split: option.split)
next
  fix e assume e: "e \<in> set (by_key (combine_data mu ku cd))"
  show "input_tokens (ApiKeyUsage.usage e) =
        (\<Sum>item\<leftarrow>filter (\<lambda>item. item_key_id item = key_id e) (bucket_rows ku).
           dict_get (item_uncached_input_tokens item) 0 + dict_get (item_cache_read_input_tokens item) 0)"
    using by_key_entry [OF e] by (simp only: key_item_input_def)
  show "output_tokens (ApiKeyUsage.usage e) =
        (\<Sum>item\<leftarrow>filter (\<lambda>item. item_key_id item = key_id e) (bucket_rows ku).
           dict_get (item_output_tokens item) 0)"
    using by_key_entry [OF e] by simp
  show "total_tokens (ApiKeyUsage.usage e) =
        input_tokens (ApiKeyUsage.usage e) + output_tokens (ApiKeyUsage.usage e)"
    using by_key_entry [OF e] by simp
  show "key_hint e =
        (if key_id e = ''workbench'' then ''Workbench''
         else if 6 < length (key_id e) then ''...'' @ drop (length (key_id e) - 6) (key_id e)
         else key_id e)"
    using by_key_entry [OF e] by (simp only: key_hint_of_def)
qed

text \<open>
  A row without a key that also carries cache-creation tokens, a row of the key
  \<open>sk-ant-api03-ABCDE123456\<close> and a row of the key \<open>abc\<close>.
\<close>

theorem combine_data_by_key_witness:
  "by_key (combine_data []
      [\<lparr>results = Some
          [\<lparr>item_model = None, item_api_key_id = None,
            item_uncached_input_tokens = Some 10, item_cache_read_input_tokens = Some 5,
            item_cache_creation = Some \<lparr>ephemeral_1h_input_tokens = Some 100,
                                         ephemeral_5m_input_tokens = Some 100\<rparr>,
            item_output_tokens = Some 3\<rparr>,
           \<lparr>item_model = None, item_api_key_id = Some ''sk-ant-api03-ABCDE123456'',
            item_uncached_input_tokens = Some 1, item_cache_read_input_tokens = None,
            item_cache_creation = None, item_output_tokens = Some 1\<rparr>,
           \<lparr>item_model = None, item_api_key_id = Some ''abc'',
            item_uncached_input_tokens = Some 4, item_cache_read_input_tokens = None,
            item_cache_creation = None, item_output_tokens = Some 4\<rparr>]\<rparr>] []) =
     [\<lparr>key_id = ''workbench'', key_hint = ''Workbench'',
       usage = \<lparr>input_tokens = 15, output_tokens = 3, total_tokens = 18, cost_usd = Finite 0\<rparr>\<rparr>,
      \<lparr>key_id = ''abc'', key_hint = ''abc'',
       usage = \<lparr>input_tokens = 4, output_tokens = 4, total_tokens = 8, cost_usd = Finite 0\<rparr>\<rparr>,
      \<lparr>key_id = ''sk-ant-api03-ABCDE123456'', key_hint = ''...123456'',
       usage = \<lparr>input_tokens = 1, output_tokens = 1, total_tokens = 2, cost_usd = Finite 0\<rparr>\<rparr>] \<and>
   distinct (map key_id (by_key (combine_data []
      [\<lparr>results = Some
          [\<lparr>item_model = None, item_api_key_id = None,
            item_uncached_input_tokens = Some 10, item_cache_read_input_tokens = Some 5,
            item_cache_creation = Some \<lparr>ephemeral_1h_input_tokens = Some 100,
                                         ephemeral_5m_input_tokens = Some 100\<rparr>,
            item_output_tokens = Some 3\<rparr>,
           \<lparr>item_model = None, item_api_key_id = Some ''sk-ant-api03-ABCDE123456'',
            item_uncached_input_tokens = Some 1, item_cache_read_input_tokens = None,
            item_cache_creation = None, item_output_tokens = Some 1\<rparr>,
           \<lparr>item_model = None, item_api_key_id = Some ''abc'',
            item_uncached_input_tokens = Some 4, item_cache_read_input_tokens = None,
            item_cache_creation = None, item_output_tokens = Some 4\<rparr>]\<rparr>] [])))"
  (is "by_key (combine_data [] ?ku []) = ?keys \<and> _")
proof -
  have ev: "by_key (combine_data [] ?ku []) = ?keys"
    by code_simp
  with combine_data_by_key [of "[]" ?ku "[]"] show ?thesis
    by blast
qed


section \<open>The calendar\<close>
lemma days_before_year_split:
  assumes "0 \<le> b" "b \<le> 3" "0 \<le> c" "c \<le> 24" "0 \<le> d" "d \<le> 3"
  shows "days_before_year (400 * a + 100 * b + 4 * c + d + 1) = 146097 * a + 36524 * b + 1461 * c + 365 * d"
proof -
  have 4: "(400 * a + 100 * b + 4 * c + d) div 4 = 100 * a + 25 * b + c"
    using assms by (intro int_div_pos_eq [where r = d]) simp_all
  have 100: "(400 * a + 100 * b + 4 * c + d) div 100 = 4 * a + b"
    using assms by (intro int_div_pos_eq [where r = "4 * c + d"]) simp_all
  have 400: "(400 * a + 100 * b + 4 * c + d) div 400 = a"
    using assms by (intro int_div_pos_eq [where r = "100 * b + 4 * c + d"]) simp_all
  show ?thesis
    by (simp add: days_before_year_def Let_def 4 100 400)
qed

lemma is_leap_split:
  assumes "0 \<le> b" "b \<le> 3" "0 \<le> c" "c \<le> 24" "0 \<le> d" "d \<le> 3"
  shows "is_leap (400 * a + 100 * b + 4 * c + d + 1) \<longleftrightarrow> d = 3 \<and> (c \<noteq> 24 \<or> b = 3)"
proof (cases "d = 3")
  case False
  have "(400 * a + 100 * b + 4 * c + d + 1) mod 4 = d + 1"
    using assms False by (intro int_mod_pos_eq [where q = "100 * a + 25 * b + c"]) simp_all
  with assms False show ?thesis
    by (simp add: is_leap_def)
next
  case d: True
  have 4: "(400 * a + 100 * b + 4 * c + d + 1) mod 4 = 0"
    using d by (intro int_mod_pos_eq [where q = "100 * a + 25 * b + c + 1"]) simp_all
  show ?thesis
  proof (cases "c = 24")
    case False
    have "(400 * a + 100 * b + 4 * c + d + 1) mod 100 = 4 * c + 4"
      using assms d False by (intro int_mod_pos_eq [where q = "4 * a + b"]) simp_all
    with assms d False 4 show ?thesis
      by (simp add: is_leap_def)
  next
    case c: True
    have 100: "(400 * a + 100 * b + 4 * c + d + 1) mod 100 = 0"
      using d c by (intro int_mod_pos_eq [where q = "4 * a + b + 1"]) simp_all
    show ?thesis
    proof (cases "b = 3")
      case True
      have "(400 * a + 100 * b + 4 * c + d + 1) mod 400 = 0"
        using d c True by (intro int_mod_pos_eq [where q = "a + 1"]) simp_all
      with d c True 4 show ?thesis
        by (simp add: is_leap_def)
    next
      case False
      have "(400 * a + 100 * b + 4 * c + d + 1) mod 400 = 100 * b + 100"
        using assms d c False by (intro int_mod_pos_eq [where q = a]) simp_all
      with assms d c False 4 100 show ?thesis
        by (simp add: is_leap_def)
    qed
  qed
qed


lemma month_of_day:
  fixes r :: int and leap :: bool
  assumes r: "0 \<le> r" "r \<le> 364"
  defines "m \<equiv> (r + 50) div 32"
  defines "preceding \<equiv> DAYS_BEFORE_MONTH ! nat (m - 1) + (if 2 < m \<and> leap then 1 else 0)"
  defines "res \<equiv> (if r < preceding
              then (m - 1, r - (preceding - (DAYS_IN_MONTH ! nat (m - 2) + (if m - 1 = 2 \<and> leap then 1 else 0))) + 1)
              else (m, r - preceding + 1))"
  shows "1 \<le> fst res \<and> fst res \<le> 12 \<and> 1 \<le> snd res \<and>
         snd res \<le> (if fst res = 2 \<and> leap then 29 else DAYS_IN_MONTH ! nat (fst res - 1)) \<and>
         DAYS_BEFORE_MONTH ! nat (fst res - 1) + (if 2 < fst res \<and> leap then 1 else 0) + snd res = r + 1"
proof -
  have lo: "32 * m \<le> r + 50" and hi: "r + 50 < 32 * m + 32"
    unfolding m_def by presburger+
  with r have "1 \<le> m" "m \<le> 12" by linarith+
  then have "m = 1 \<or> m = 2 \<or> m = 3 \<or> m = 4 \<or> m = 5 \<or> m = 6 \<or>
      m = 7 \<or> m = 8 \<or> m = 9 \<or> m = 10 \<or> m = 11 \<or> m = 12"
    by arith
  then consider "m = 1" | "m = 2" | "m = 3" | "m = 4" | "m = 5" | "m = 6"
    | "m = 7" | "m = 8" | "m = 9" | "m = 10" | "m = 11" | "m = 12"
    by blast
  then show ?thesis
  proof cases
    case 1 with lo hi r show ?thesis
      by (simp add: res_def preceding_def DAYS_BEFORE_MONTH_def DAYS_IN_MONTH_def)
  next
    case 2 with lo hi r show ?thesis
      by (simp add: res_def preceding_def DAYS_BEFORE_MONTH_def DAYS_IN_MONTH_def)
  next
    case 3 with lo hi r show ?thesis
      by (simp add: res_def preceding_def DAYS_BEFORE_MONTH_def DAYS_IN_MONTH_def)
  next
    case 4 with lo hi r show ?thesis
      by (simp add: res_def preceding_def DAYS_BEFORE_MONTH_def DAYS_IN_MONTH_def)
  next
    case 5 with lo hi r show ?thesis
      by (simp add: res_def preceding_def DAYS_BEFORE_MONTH_def DAYS_IN_MONTH_def)
  next
    case 6 with lo hi r show ?thesis
      by (simp add: res_def preceding_def DAYS_BEFORE_MONTH_def DAYS_IN_MONTH_def)
  next
    case 7 with lo hi r show ?thesis
      by (simp add: res_def preceding_def DAYS_BEFORE_MONTH_def DAYS_IN_MONTH_def)
  next
    case 8 with lo hi r show ?thesis
      by (simp add: res_def preceding_def DAYS_BEFORE_MONTH_def DAYS_IN_MONTH_def)
  next
    case 9 with lo hi r show ?thesis
      by (simp add: res_def preceding_def DAYS_BEFORE_MONTH_def DAYS_IN_MONTH_def)
  next
    case 10 with lo hi r show ?thesis
      by (simp add: res_def preceding_def DAYS_BEFORE_MONTH_def DAYS_IN_MONTH_def)
  next
    case 11 with lo hi r show ?thesis
      by (simp add: res_def preceding_def DAYS_BEFORE_MONTH_def DAYS_IN_MONTH_def)
  next
    case 12 with lo hi r show ?thesis
      by (simp add: res_def preceding_def DAYS_BEFORE_MONTH_def DAYS_IN_MONTH_def)
  qed
qed


lemma ord2ymd_correct:
  assumes n: "1 \<le> n"
  shows "case ord2ymd n of (y, m, d) \<Rightarrow>
           ymd2ord y m d = n \<and> 1 \<le> y \<and> 1 \<le> m \<and> m \<le> 12 \<and> 1 \<le> d \<and> d \<le> days_in_month y m"
proof -
  define a where "a = (n - 1) div 146097"
  define r1 where "r1 = (n - 1) mod 146097"
  define b where "b = r1 div 36524"
  define r2 where "r2 = r1 mod 36524"
  define c where "c = r2 div 1461"
  define r3 where "r3 = r2 mod 1461"
  define d where "d = r3 div 365"
  define r4 where "r4 = r3 mod 365"
  define leapyear where "leapyear = (d = 3 \<and> (c \<noteq> 24 \<or> b = 3))"
  define m where "m = (r4 + 50) div 32"
  define preceding where
    "preceding = DAYS_BEFORE_MONTH ! nat (m - 1) + (if 2 < m \<and> leapyear then 1 else 0)"
  define res where "res = (if r4 < preceding
              then (m - 1, r4 - (preceding - (DAYS_IN_MONTH ! nat (m - 2) + (if m - 1 = 2 \<and> leapyear then 1 else 0))) + 1)
              else (m, r4 - preceding + 1))"
  define y where "y = a * 400 + 1 + b * 100 + c * 4 + d"
  have ord': "ord2ymd n = (if d = 4 \<or> b = 4 then (y - 1, 12, 31)
       else if r4 < preceding
            then (y, m - 1, r4 - (preceding - (DAYS_IN_MONTH ! nat (m - 2) + (if m - 1 = 2 \<and> leapyear then 1 else 0))) + 1)
            else (y, m, r4 - preceding + 1))"
    by (simp only: ord2ymd_def Let_def preceding_def m_def leapyear_def y_def r4_def d_def r3_def
        c_def r2_def b_def r1_def a_def)
  have ord: "ord2ymd n = (if d = 4 \<or> b = 4 then (y - 1, 12, 31) else (y, fst res, snd res))"
    unfolding ord' res_def by (simp only: if_distrib [of fst] if_distrib [of snd] fst_conv snd_conv if_distrib [of "Pair y"] split: if_split) simp
  have a0: "0 \<le> a"
    using n by (simp add: a_def pos_imp_zdiv_nonneg_iff)
  have n_eq: "n = 146097 * a + r1 + 1"
    by (simp add: a_def r1_def)
  have r1: "0 \<le> r1" "r1 < 146097" "r1 = 36524 * b + r2"
    by (simp_all add: r1_def b_def r2_def)
  have r2: "0 \<le> r2" "r2 < 36524" "r2 = 1461 * c + r3"
    by (simp_all add: r2_def c_def r3_def)
  have r3: "0 \<le> r3" "r3 < 1461" "r3 = 365 * d + r4"
    by (simp_all add: r3_def d_def r4_def)
  have r4: "0 \<le> r4" "r4 < 365"
    by (simp_all add: r4_def)
  have b: "0 \<le> b" "b \<le> 4"
    using r1 r2 by linarith+
  have c: "0 \<le> c" "c \<le> 24"
    using r2 r3 by linarith+
  have d: "0 \<le> d" "d \<le> 4"
    using r3 r4 by linarith+
  show ?thesis
  proof (cases "b = 4")
    case True
    with r1 r2 have "r2 = 0" by linarith
    with r2 r3 c have "c = 0" "r3 = 0" by linarith+
    with r3 r4 d have "d = 0" "r4 = 0" by linarith+
    have yv: "y - 1 = 400 * a + 100 * 3 + 4 * 24 + 3 + 1"
      using \<open>b = 4\<close> \<open>c = 0\<close> \<open>d = 0\<close> by (simp add: y_def)
    have dby: "days_before_year (y - 1) = 146097 * a + 36524 * 3 + 1461 * 24 + 365 * 3"
      unfolding yv by (rule days_before_year_split) simp_all
    have leap: "is_leap (y - 1)"
      unfolding yv by (subst is_leap_split) simp_all
    have "ymd2ord (y - 1) 12 31 = n"
      using dby leap n_eq r1(3) \<open>b = 4\<close> \<open>r2 = 0\<close>
      by (simp add: ymd2ord_def days_before_month_def DAYS_BEFORE_MONTH_def)
    moreover have "1 \<le> y - 1" using a0 yv by linarith
    ultimately show ?thesis
      using True by (simp add: ord days_in_month_def DAYS_IN_MONTH_def)
  next
    case b4: False
    with b have b3: "b \<le> 3" by linarith
    show ?thesis
    proof (cases "d = 4")
      case True
      with r3 r4 have "r4 = 0" by linarith
      from True r2 r3 r4 c have c23: "c \<le> 23" by linarith
      have yv: "y - 1 = 400 * a + 100 * b + 4 * c + 3 + 1"
        using True by (simp add: y_def)
      have dby: "days_before_year (y - 1) = 146097 * a + 36524 * b + 1461 * c + 365 * 3"
        unfolding yv using b b3 c c23 by (intro days_before_year_split) simp_all
      have leap: "is_leap (y - 1)"
        unfolding yv using b b3 c c23 by (subst is_leap_split) simp_all
      have "ymd2ord (y - 1) 12 31 = n"
        using dby leap n_eq r1(3) r2(3) r3(3) True \<open>r4 = 0\<close>
        by (simp add: ymd2ord_def days_before_month_def DAYS_BEFORE_MONTH_def)
      moreover have "1 \<le> y - 1" using a0 b c yv by linarith
      ultimately show ?thesis
        using True by (simp add: ord days_in_month_def DAYS_IN_MONTH_def)
    next
      case d4: False
      with d have d3: "d \<le> 3" by linarith
      have yv: "y = 400 * a + 100 * b + 4 * c + d + 1"
        by (simp add: y_def)
      have dby: "days_before_year y = 146097 * a + 36524 * b + 1461 * c + 365 * d"
        unfolding yv using b b3 c d d3 by (intro days_before_year_split) simp_all
      have leap: "is_leap y = leapyear"
        unfolding yv leapyear_def using b b3 c d d3 by (intro is_leap_split) simp_all
      from r4 have "r4 \<le> 364" by simp
      from month_of_day [OF r4(1) this, of leapyear, folded m_def, folded preceding_def, folded res_def]
      have md: "1 \<le> fst res" "fst res \<le> 12" "1 \<le> snd res"
        "snd res \<le> (if fst res = 2 \<and> leapyear then 29 else DAYS_IN_MONTH ! nat (fst res - 1))"
        "DAYS_BEFORE_MONTH ! nat (fst res - 1) + (if 2 < fst res \<and> leapyear then 1 else 0) + snd res = r4 + 1"
        by simp_all
      have "ymd2ord y (fst res) (snd res) = n"
        using dby md(5) n_eq r1(3) r2(3) r3(3)
        by (simp add: ymd2ord_def days_before_month_def leap)
      moreover have "1 \<le> y" using a0 b c d yv by linarith
      ultimately show ?thesis
        using b4 d4 md by (simp add: ord days_in_month_def leap case_prod_beta)
    qed
  qed
qed


lemma div_step:
  fixes y k :: int
  assumes "0 < k"
  shows "y div k = (y - 1) div k + (if y mod k = 0 then 1 else 0)"
proof -
  define q where "q = (y - 1) div k"
  define r where "r = (y - 1) mod k"
  have y: "y = k * q + r + 1"
    by (simp add: q_def r_def)
  have r: "0 \<le> r" "r < k"
    using assms by (simp_all add: r_def)
  show ?thesis
  proof (cases "r + 1 = k")
    case True
    then have e: "y = k * (q + 1) + 0" using y by (simp add: algebra_simps)
    have "y div k = q + 1"
      by (rule int_div_pos_eq [OF e]) (use assms in simp_all)
    moreover have "y mod k = 0"
      by (rule int_mod_pos_eq [OF e]) (use assms in simp_all)
    ultimately show ?thesis by (simp add: q_def)
  next
    case False
    with r have lt: "r + 1 < k" by simp
    have e: "y = k * q + (r + 1)" using y by simp
    have "y div k = q"
      by (rule int_div_pos_eq [OF e]) (use r lt in simp_all)
    moreover have "y mod k = r + 1"
      by (rule int_mod_pos_eq [OF e]) (use r lt in simp_all)
    ultimately show ?thesis using r by (simp add: q_def)
  qed
qed

lemma days_before_year_Suc:
  "days_before_year (y + 1) = days_before_year y + (if is_leap y then 366 else 365)"
proof -
  define A where "A = (y - 1) div 4"
  define B where "B = (y - 1) div 100"
  define C where "C = (y - 1) div 400"
  have s: "y div 4 = A + (if y mod 4 = 0 then 1 else 0)"
    "y div 100 = B + (if y mod 100 = 0 then 1 else 0)"
    "y div 400 = C + (if y mod 400 = 0 then 1 else 0)"
    unfolding A_def B_def C_def by (rule div_step, simp)+
  have "(100::int) dvd 400" "(4::int) dvd 100" by simp_all
  then have d: "y mod 400 = 0 \<Longrightarrow> y mod 100 = 0" "y mod 100 = 0 \<Longrightarrow> y mod 4 = 0"
    by (simp_all only: mod_eq_0_iff_dvd) (erule dvd_trans, assumption)+
  have l: "days_before_year (y + 1) = y * 365 + y div 4 - y div 100 + y div 400"
    by (simp add: days_before_year_def)
  have r: "days_before_year y = (y - 1) * 365 + A - B + C"
    by (simp add: days_before_year_def Let_def A_def B_def C_def)
  show ?thesis
  proof (cases "y mod 4 = 0")
    case False
    with d have "y mod 100 \<noteq> 0" "y mod 400 \<noteq> 0" by auto
    with False show ?thesis
      unfolding l r s is_leap_def by (simp add: algebra_simps)
  next
    case 4: True
    show ?thesis
    proof (cases "y mod 100 = 0")
      case False
      with d have "y mod 400 \<noteq> 0" by auto
      with 4 False show ?thesis
        unfolding l r s is_leap_def by (simp add: algebra_simps)
    next
      case True
      with 4 show ?thesis
        unfolding l r s is_leap_def by (cases "y mod 400 = 0") (simp_all add: algebra_simps)
    qed
  qed
qed

lemma days_before_year_mono: "y \<le> y' \<Longrightarrow> days_before_year y \<le> days_before_year y'"
proof (induction y' rule: int_ge_induct)
  case base
  show ?case by simp
next
  case (step i)
  then show ?case
    using days_before_year_Suc [of i] by (simp split: if_splits)
qed

lemma days_before_month_bound:
  assumes "1 \<le> m" "m \<le> 12"
  shows "0 \<le> days_before_month y m \<and>
         days_before_month y m + days_in_month y m \<le> (if is_leap y then 366 else 365)"
proof -
  from assms have "m = 1 \<or> m = 2 \<or> m = 3 \<or> m = 4 \<or> m = 5 \<or> m = 6 \<or>
      m = 7 \<or> m = 8 \<or> m = 9 \<or> m = 10 \<or> m = 11 \<or> m = 12"
    by arith
  then show ?thesis
    by (elim disjE)
      (simp_all add: days_before_month_def days_in_month_def DAYS_BEFORE_MONTH_def DAYS_IN_MONTH_def)
qed

lemma ymd2ord_bounds:
  assumes "1 \<le> m" "m \<le> 12" "1 \<le> d" "d \<le> days_in_month y m"
  shows "days_before_year y < ymd2ord y m d" "ymd2ord y m d \<le> days_before_year (y + 1)"
  using days_before_month_bound [OF assms(1,2), of y] assms(3,4)
  by (simp_all add: ymd2ord_def days_before_year_Suc split: if_splits)

lemma days_before_year_values:
  "days_before_year 1 = 0" "days_before_year 10000 = MAXORDINAL" "days_before_year 1000 = 364877"
  by (simp_all add: days_before_year_def MAXORDINAL_def)

lemma ymd2ord_year_le:
  assumes "1 \<le> m" "m \<le> 12" "1 \<le> d" "d \<le> days_in_month y m"
    and "ymd2ord y m d \<le> days_before_year Y"
  shows "y < Y"
proof (rule ccontr)
  assume "\<not> y < Y"
  then have "days_before_year Y \<le> days_before_year y"
    by (intro days_before_year_mono) simp
  with ymd2ord_bounds(1) [OF assms(1-4)] assms(5) show False by simp
qed

lemma ymd2ord_year_ge:
  assumes "1 \<le> m" "m \<le> 12" "1 \<le> d" "d \<le> days_in_month y m"
    and "days_before_year Y < ymd2ord y m d"
  shows "Y \<le> y"
proof (rule ccontr)
  assume "\<not> Y \<le> y"
  then have "days_before_year (y + 1) \<le> days_before_year Y"
    by (intro days_before_year_mono) simp
  with ymd2ord_bounds(2) [OF assms(1-4)] assms(5) show False by simp
qed


section \<open>Differences of datetimes\<close>
lemma int_div_eq_iff:
  fixes D k q :: int
  assumes "0 < k"
  shows "D div k = q \<longleftrightarrow> q * k \<le> D \<and> D < (q + 1) * k"
proof
  assume "D div k = q"
  then have "D = q * k + D mod k"
    by (metis div_mult_mod_eq)
  moreover have "0 \<le> D mod k" "D mod k < k"
    using assms by simp_all
  ultimately show "q * k \<le> D \<and> D < (q + 1) * k"
    by (simp add: algebra_simps)
next
  assume "q * k \<le> D \<and> D < (q + 1) * k"
  then show "D div k = q"
    by (intro int_div_pos_eq [where r = "D - q * k"]) (simp_all add: algebra_simps)
qed

lemma datetime_diff_instant:
  "datetime_diff a b = timedelta_of 0 0 (instant a - instant b)"
  by (simp add: datetime_diff_def timedelta_of_def Let_def instant_def algebra_simps)

lemma days_diff:
  "days (datetime_diff a b) = q \<longleftrightarrow>
   q * 86400000000 \<le> instant a - instant b \<and> instant a - instant b < (q + 1) * 86400000000"
  by (simp add: datetime_diff_instant timedelta_of_def Let_def int_div_eq_iff algebra_simps)

lemma seconds_diff:
  assumes "0 \<le> instant a - instant b" "instant a - instant b < 86400000000"
  shows "seconds (datetime_diff a b) = (instant a - instant b) div 1000000"
  using assms by (simp add: datetime_diff_instant timedelta_of_def Let_def)


section \<open>The reset time\<close>
lemma str_nat_digit: "n < 10 \<Longrightarrow> str_nat n = [digit_char n]"
  by simp

lemma str_nat_two: "10 \<le> n \<Longrightarrow> n < 100 \<Longrightarrow> str_nat n = [digit_char (n div 10), digit_char (n mod 10)]"
  by (subst str_nat.simps) (simp add: str_nat_digit)

declare str_nat.simps [simp del]

declare strip_fraction.simps [simp del] replace_utc.simps [simp del]

lemma zero_padded_2:
  assumes "0 \<le> i" "i < 100"
  shows "zero_padded 2 i = [digit_char (nat i div 10), digit_char (nat i mod 10)]"
proof (cases "i < 10")
  case True
  with assms have "str_int i = [digit_char (nat i)]"
    by (simp add: str_int_def str_nat_digit)
  moreover from True assms have "nat i div 10 = 0" "nat i mod 10 = nat i"
    by simp_all
  ultimately show ?thesis
    by (simp add: zero_padded_def digit_char_def)
next
  case False
  with assms have "str_int i = [digit_char (nat i div 10), digit_char (nat i mod 10)]"
    by (simp add: str_int_def str_nat_two)
  then show ?thesis
    by (simp add: zero_padded_def)
qed

lemma days_diff_cases:
  "days (datetime_diff a b) = 0 \<longleftrightarrow> 0 \<le> instant a - instant b \<and> instant a - instant b < 86400000000"
  "days (datetime_diff a b) = 1 \<longleftrightarrow>
     86400000000 \<le> instant a - instant b \<and> instant a - instant b < 172800000000"
  "days (datetime_diff a b) = - 1 \<longleftrightarrow>
     - 86400000000 \<le> instant a - instant b \<and> instant a - instant b < 0"
  by (simp_all add: days_diff)

text \<open>
  C3, amended: the result is \<open>--\<close> without a timestamp and \<open>?\<close> when the timestamp,
  its fractions of a second stripped, does not parse. Otherwise let \<open>D\<close> be the signed
  difference between the timestamp and now. When \<open>0 \<le> D < 24 h\<close>, whatever the calendar
  days, the result is the whole hours and the whole minutes of the remainder, or the
  whole minutes alone when there is no whole hour; when \<open>24 h \<le> D < 48 h\<close> it is
  \<open>Tomorrow\<close>; in every other case, a timestamp in the past included, it is the
  abbreviated month and the day.
\<close>

theorem format_reset_time_cases:
  "format_reset_time parse now iso_time =
     (case iso_time of
        None \<Rightarrow> ''--''
      | Some s \<Rightarrow>
          if s = [] then ''--''
          else
            (case parse (replace_utc (strip_fraction s)) of
               None \<Rightarrow> ''?''
             | Some dt \<Rightarrow>
                 (let D = instant dt - instant now;
                      S = D div 1000000
                  in if 0 \<le> D \<and> D < 86400000000 then
                       (if 3600 \<le> S then str_int (S div 3600) @ ''h '' @ str_int (S mod 3600 div 60) @ ''m''
                        else str_int (S div 60) @ ''m'')
                     else if 86400000000 \<le> D \<and> D < 172800000000 then ''Tomorrow''
                     else strftime_b_d dt)))"
proof (cases iso_time)
  case None
  then show ?thesis by (simp add: format_reset_time_def)
next
  case (Some s)
  show ?thesis
  proof (cases "s = [] \<or> parse (replace_utc (strip_fraction s)) = None")
    case True
    with Some show ?thesis by (auto simp: format_reset_time_def)
  next
    case False
    then obtain dt where s: "s \<noteq> []" and dt: "parse (replace_utc (strip_fraction s)) = Some dt"
      by auto
    define D where "D = instant dt - instant now"
    show ?thesis
    proof (cases "0 \<le> D \<and> D < 86400000000")
      case True
      then have sec: "seconds (datetime_diff dt now) = D div 1000000"
        unfolding D_def by (intro seconds_diff) simp_all
      have d0: "days (datetime_diff dt now) = 0"
        using True by (simp add: days_diff_cases D_def)
      have h: "0 < D div 1000000 div 3600 \<longleftrightarrow> 3600 \<le> D div 1000000"
        by (simp add: pos_imp_zdiv_pos_iff)
      have m: "\<not> 3600 \<le> D div 1000000 \<Longrightarrow> D div 1000000 mod 3600 = D div 1000000"
        using True by (simp add: pos_imp_zdiv_nonneg_iff)
      show ?thesis
        using True m by (simp add: format_reset_time_def Some s dt Let_def d0 sec h flip: D_def)
    next
      case False
      then have d0: "days (datetime_diff dt now) \<noteq> 0"
        by (simp add: days_diff_cases D_def)
      show ?thesis
        using False d0
        by (auto simp add: format_reset_time_def Some s dt Let_def days_diff_cases(2) simp flip: D_def)
    qed
  qed
qed


text \<open>
  C3, as stated, fails: at 19:30 a timestamp of 18:00 of the same calendar day gives
  neither hours nor minutes but the month and the day.
\<close>

theorem format_reset_time_same_day_counterexample:
  "fromisoformat (replace_utc (strip_fraction ''2025-02-07T18:00:00.123456+00:00'')) =
     Some \<lparr>year = 2025, month = 2, day = 7, hour = 18, minute = 0, second = 0,
            microsecond = 0, tzinfo = Some 0\<rparr> \<and>
   format_reset_time fromisoformat
     \<lparr>year = 2025, month = 2, day = 7, hour = 19, minute = 30, second = 0,
      microsecond = 0, tzinfo = Some 0\<rparr>
     (Some ''2025-02-07T18:00:00.123456+00:00'') = ''Feb 07''"
  by code_simp

text \<open>
  The timestamps of the specification: 90 minutes ahead, a day and a half ahead, and
  malformed; and none at all.
\<close>

theorem format_reset_time_cases_witness:
  "format_reset_time fromisoformat
     \<lparr>year = 2025, month = 2, day = 7, hour = 16, minute = 30, second = 0,
      microsecond = 0, tzinfo = Some 0\<rparr>
     (Some ''2025-02-07T18:00:00.123456+00:00'') = ''1h 30m'' \<and>
   format_reset_time fromisoformat
     \<lparr>year = 2025, month = 2, day = 7, hour = 17, minute = 45, second = 0,
      microsecond = 250000, tzinfo = Some 0\<rparr>
     (Some ''2025-02-07T18:00:00.123456+00:00'') = ''14m'' \<and>
   format_reset_time fromisoformat
     \<lparr>year = 2025, month = 2, day = 6, hour = 6, minute = 0, second = 0,
      microsecond = 0, tzinfo = Some 0\<rparr>
     (Some ''2025-02-07T18:00:00.123456+00:00'') = ''Tomorrow'' \<and>
   format_reset_time fromisoformat
     \<lparr>year = 2025, month = 2, day = 6, hour = 6, minute = 0, second = 0,
      microsecond = 0, tzinfo = Some 0\<rparr>
     (Some ''next week'') = ''?'' \<and>
   format_reset_time fromisoformat
     \<lparr>year = 2025, month = 2, day = 6, hour = 6, minute = 0, second = 0,
      microsecond = 0, tzinfo = Some 0\<rparr>
     None = ''--''"
proof -
  have p: "fromisoformat (replace_utc (strip_fraction ''2025-02-07T18:00:00.123456+00:00'')) =
     Some \<lparr>year = 2025, month = 2, day = 7, hour = 18, minute = 0, second = 0,
            microsecond = 0, tzinfo = Some 0\<rparr>"
    by code_simp
  have q: "fromisoformat (replace_utc (strip_fraction ''next week'')) = None"
    by code_simp
  have i: "instant \<lparr>year = 2025, month = 2, day = 7, hour = 18, minute = 0, second = 0,
            microsecond = 0, tzinfo = Some 0\<rparr> = 63874548000000000"
    "instant \<lparr>year = 2025, month = 2, day = 7, hour = 16, minute = 30, second = 0,
      microsecond = 0, tzinfo = Some 0\<rparr> = 63874542600000000"
    "instant \<lparr>year = 2025, month = 2, day = 7, hour = 17, minute = 45, second = 0,
      microsecond = 250000, tzinfo = Some 0\<rparr> = 63874547100250000"
    "instant \<lparr>year = 2025, month = 2, day = 6, hour = 6, minute = 0, second = 0,
      microsecond = 0, tzinfo = Some 0\<rparr> = 63874418400000000"
    by code_simp+
  have s: "str_int 1 = ''1''" "str_int 30 = ''30''" "str_int 14 = ''14''"
    by code_simp+
  show ?thesis
    by (simp add: format_reset_time_cases p q i s)
qed


lemma digit_char_in: "n < 10 \<Longrightarrow> digit_char n \<in> set ''0123456789''"
  unfolding digit_char_def by (rule nth_mem) simp

lemma days_in_month_le: "1 \<le> m \<Longrightarrow> m \<le> 12 \<Longrightarrow> days_in_month y m \<le> 31"
proof -
  assume "1 \<le> m" "m \<le> 12"
  then have "m = 1 \<or> m = 2 \<or> m = 3 \<or> m = 4 \<or> m = 5 \<or> m = 6 \<or>
      m = 7 \<or> m = 8 \<or> m = 9 \<or> m = 10 \<or> m = 11 \<or> m = 12"
    by arith
  then show ?thesis
    by (elim disjE) (simp_all add: days_in_month_def DAYS_IN_MONTH_def)
qed

lemma strftime_b_d_valid:
  assumes "valid_datetime dt"
  shows "strftime_b_d dt =
         month_abbr ! nat (month dt - 1) @ '' '' @
         [digit_char (nat (day dt) div 10), digit_char (nat (day dt) mod 10)]"
proof -
  from assms have "1 \<le> day dt" "day dt \<le> 31"
    using days_in_month_le [of "month dt" "year dt"]
    by (simp_all add: valid_datetime_def valid_date_def)
  then show ?thesis
    by (simp add: strftime_b_d_def zero_padded_2)
qed

text \<open>
  C10: a timestamp that parses and lies less than 24 hours in the past has a
  difference whose days are -1, so the result is the abbreviated month and the
  zero-padded day of the timestamp; it ends in a digit, so it is neither \<open>Tomorrow\<close>
  nor a rendering of hours or minutes.
\<close>

theorem format_reset_time_past:
  assumes "s \<noteq> []" and "parse (replace_utc (strip_fraction s)) = Some dt"
    and "valid_datetime dt"
    and "instant dt < instant now" and "instant now - instant dt < 86400000000"
  shows "days (datetime_diff dt now) = - 1 \<and>
         format_reset_time parse now (Some s) =
           month_abbr ! nat (month dt - 1) @ '' '' @
           [digit_char (nat (day dt) div 10), digit_char (nat (day dt) mod 10)] \<and>
         format_reset_time parse now (Some s) \<noteq> ''Tomorrow'' \<and>
         format_reset_time parse now (Some s) \<noteq> str_int h @ ''h '' @ str_int m @ ''m'' \<and>
         format_reset_time parse now (Some s) \<noteq> str_int m @ ''m''"
proof -
  have d: "days (datetime_diff dt now) = - 1"
    using assms(4,5) by (simp add: days_diff_cases)
  have r: "format_reset_time parse now (Some s) = strftime_b_d dt"
    using assms(1,2) d by (simp add: format_reset_time_def Let_def)
  let ?r = "month_abbr ! nat (month dt - 1) @ '' '' @
           [digit_char (nat (day dt) div 10), digit_char (nat (day dt) mod 10)]"
  have e: "format_reset_time parse now (Some s) = ?r"
    using r strftime_b_d_valid [OF assms(3)] by simp
  have "last ?r = digit_char (nat (day dt) mod 10)"
    by simp
  moreover have "digit_char (nat (day dt) mod 10) \<in> set ''0123456789''"
    by (rule digit_char_in) simp
  ultimately have l: "last ?r \<in> set ''0123456789''"
    by simp
  have "last ''Tomorrow'' \<notin> set ''0123456789''"
    "last (str_int h @ ''h '' @ str_int m @ ''m'') \<notin> set ''0123456789''"
    "last (str_int m @ ''m'') \<notin> set ''0123456789''"
    by simp_all
  with l have "?r \<noteq> ''Tomorrow''" "?r \<noteq> str_int h @ ''h '' @ str_int m @ ''m''"
    "?r \<noteq> str_int m @ ''m''"
    by metis+
  with d e show ?thesis by simp
qed

text \<open>At 19:30, the timestamp of 18:00 of the same day.\<close>

theorem format_reset_time_past_witness:
  "''2025-02-07T18:00:00.123456+00:00'' \<noteq> [] \<and>
   fromisoformat (replace_utc (strip_fraction ''2025-02-07T18:00:00.123456+00:00'')) =
     Some \<lparr>year = 2025, month = 2, day = 7, hour = 18, minute = 0, second = 0,
            microsecond = 0, tzinfo = Some 0\<rparr> \<and>
   valid_datetime \<lparr>year = 2025, month = 2, day = 7, hour = 18, minute = 0, second = 0,
            microsecond = 0, tzinfo = Some 0\<rparr> \<and>
   instant \<lparr>year = 2025, month = 2, day = 7, hour = 18, minute = 0, second = 0,
            microsecond = 0, tzinfo = Some 0\<rparr> <
   instant \<lparr>year = 2025, month = 2, day = 7, hour = 19, minute = 30, second = 0,
            microsecond = 0, tzinfo = Some 0\<rparr> \<and>
   instant \<lparr>year = 2025, month = 2, day = 7, hour = 19, minute = 30, second = 0,
            microsecond = 0, tzinfo = Some 0\<rparr> -
   instant \<lparr>year = 2025, month = 2, day = 7, hour = 18, minute = 0, second = 0,
            microsecond = 0, tzinfo = Some 0\<rparr> < 86400000000 \<and>
   format_reset_time fromisoformat
     \<lparr>year = 2025, month = 2, day = 7, hour = 19, minute = 30, second = 0,
      microsecond = 0, tzinfo = Some 0\<rparr>
     (Some ''2025-02-07T18:00:00.123456+00:00'') = ''Feb 07''"
  (is "?s \<noteq> [] \<and> fromisoformat _ = Some ?dt \<and> _ \<and> instant _ < instant ?now \<and> _ \<and> _")
proof -
  have 1: "?s \<noteq> []" by simp
  have 2: "fromisoformat (replace_utc (strip_fraction ?s)) = Some ?dt"
    by code_simp
  have 3: "valid_datetime ?dt"
    by code_simp
  have i: "instant ?dt = 63874548000000000" "instant ?now = 63874553400000000"
    by code_simp+
  have 4: "instant ?dt < instant ?now" and 5: "instant ?now - instant ?dt < 86400000000"
    by (simp_all add: i)
  have "month_abbr ! nat (month ?dt - 1) @ '' '' @
           [digit_char (nat (day ?dt) div 10), digit_char (nat (day ?dt) mod 10)] = ''Feb 07''"
    by code_simp
  with format_reset_time_past [where parse = fromisoformat and s = ?s and dt = ?dt and now = ?now, OF 1 2 3 4 5]
    1 2 3 4 5 show ?thesis
    by simp
qed


section \<open>Arithmetic of datetimes\<close>
lemma timedelta_of_normal:
  assumes "0 \<le> s" "s < 86400" "0 \<le> us" "us < 1000000"
  shows "timedelta_of d s us = \<lparr>days = d, seconds = s, microseconds = us\<rparr>"
proof -
  define total where "total = (d * 86400 + s) * 1000000 + us"
  have e: "total = 86400000000 * d + (s * 1000000 + us)"
    by (simp add: total_def algebra_simps)
  have b: "0 \<le> s * 1000000 + us" "s * 1000000 + us < 86400000000"
    using assms by simp_all
  have 1: "total div 86400000000 = d"
    by (rule int_div_pos_eq [OF e b])
  have 2: "total mod 86400000000 = s * 1000000 + us"
    by (rule int_mod_pos_eq [OF e b])
  have 3: "(s * 1000000 + us) div 1000000 = s"
    by (rule int_div_pos_eq [where r = us]) (use assms in simp_all)
  have 4: "total mod 1000000 = us"
    by (rule int_mod_pos_eq [where q = "d * 86400 + s"]) (use assms in \<open>simp_all add: total_def\<close>)
  show ?thesis
    unfolding timedelta_of_def Let_def total_def [symmetric] by (simp add: 1 2 3 4)
qed

lemma time_of_day_split:
  fixes h mi s :: int
  assumes "0 \<le> h" "h < 24" "0 \<le> mi" "mi < 60" "0 \<le> s" "s < 60"
  shows "(h * 3600 + mi * 60 + s) div 3600 = h"
    "(h * 3600 + mi * 60 + s) mod 3600 div 60 = mi"
    "(h * 3600 + mi * 60 + s) mod 3600 mod 60 = s"
    "0 \<le> h * 3600 + mi * 60 + s" "h * 3600 + mi * 60 + s < 86400"
proof -
  show "(h * 3600 + mi * 60 + s) div 3600 = h"
    by (rule int_div_pos_eq [where r = "mi * 60 + s"]) (use assms in simp_all)
  have m: "(h * 3600 + mi * 60 + s) mod 3600 = mi * 60 + s"
    by (rule int_mod_pos_eq [where q = h]) (use assms in simp_all)
  show "(h * 3600 + mi * 60 + s) mod 3600 div 60 = mi"
    unfolding m by (rule int_div_pos_eq [where r = s]) (use assms in simp_all)
  show "(h * 3600 + mi * 60 + s) mod 3600 mod 60 = s"
    unfolding m by (rule int_mod_pos_eq [where q = mi]) (use assms in simp_all)
  show "0 \<le> h * 3600 + mi * 60 + s" "h * 3600 + mi * 60 + s < 86400"
    using assms by simp_all
qed

text \<open>Adding whole days to a datetime moves its ordinal and keeps its time of day.\<close>

lemma datetime_add_days:
  assumes v: "valid_datetime dt"
    and lo: "0 < toordinal dt + k" and hi: "toordinal dt + k \<le> MAXORDINAL"
  shows "\<exists>y m d. datetime_add dt \<lparr>days = k, seconds = 0, microseconds = 0\<rparr> =
                     Inr (dt\<lparr>year := y, month := m, day := d\<rparr>) \<and>
                   valid_date y m d \<and> ymd2ord y m d = toordinal dt + k"
proof -
  from v have t: "0 \<le> hour dt" "hour dt < 24" "0 \<le> minute dt" "minute dt < 60"
    "0 \<le> second dt" "second dt < 60" and us: "0 \<le> microsecond dt" "microsecond dt < 1000000"
    by (simp_all add: valid_datetime_def)
  note tod = time_of_day_split [OF t]
  have delta: "timedelta_of (toordinal dt + k) (hour dt * 3600 + minute dt * 60 + second dt) (microsecond dt) =
      \<lparr>days = toordinal dt + k, seconds = hour dt * 3600 + minute dt * 60 + second dt,
       microseconds = microsecond dt\<rparr>"
    by (rule timedelta_of_normal [OF tod(4,5) us])
  obtain y m d where o: "ord2ymd (toordinal dt + k) = (y, m, d)"
    by (cases "ord2ymd (toordinal dt + k)")
  from lo have "1 \<le> toordinal dt + k" by simp
  from ord2ymd_correct [OF this] o
  have c: "ymd2ord y m d = toordinal dt + k" "1 \<le> y" "1 \<le> m" "m \<le> 12" "1 \<le> d" "d \<le> days_in_month y m"
    by simp_all
  from c(1) hi have "ymd2ord y m d \<le> days_before_year 10000"
    by (simp add: days_before_year_values)
  from ymd2ord_year_le [OF c(3-6) this] have "y \<le> 9999" by simp
  with c have "valid_date y m d"
    by (simp add: valid_date_def)
  moreover have "datetime_add dt \<lparr>days = k, seconds = 0, microseconds = 0\<rparr> =
      Inr (dt\<lparr>year := y, month := m, day := d\<rparr>)"
    using lo hi by (simp add: datetime_add_def delta Let_def o tod)
  ultimately show ?thesis
    using c(1) by blast
qed


section \<open>Formatting and parsing\<close>
lemma below_ten:
  assumes "k < 10" and "list_all P [0..<10]"
  shows "P k"
  using assms by (simp add: list_all_iff)

lemma digit_char_eq:
  assumes "n < 10"
  shows "digit_char n = CHR ''0'' \<longleftrightarrow> n = 0" "digit_char n = CHR ''1'' \<longleftrightarrow> n = 1"
    "digit_char n = CHR ''2'' \<longleftrightarrow> n = 2" "digit_char n = CHR ''3'' \<longleftrightarrow> n = 3"
    "digit_char n = CHR ''4'' \<longleftrightarrow> n = 4" "digit_char n = CHR ''5'' \<longleftrightarrow> n = 5"
    "digit_char n = CHR ''6'' \<longleftrightarrow> n = 6" "digit_char n = CHR ''7'' \<longleftrightarrow> n = 7"
    "digit_char n = CHR ''8'' \<longleftrightarrow> n = 8" "digit_char n = CHR ''9'' \<longleftrightarrow> n = 9"
    "digit_char n \<noteq> CHR '' ''" "digit_char n \<noteq> CHR ''-''" "digit_char n \<noteq> CHR '':''"
    "digit_char n \<noteq> CHR ''t''" "digit_char n \<noteq> CHR ''z''"
    "ascii_lower (digit_char n) = digit_char n"
    "digit_val (digit_char n) = int n"
  by (rule below_ten [OF assms], simp add: upt_rec digit_char_def ascii_lower_def digit_val_def)+

lemma ascii_lower_literals:
  "ascii_lower CHR ''-'' = CHR ''-''" "ascii_lower CHR ''T'' = CHR ''t''"
  "ascii_lower CHR '':'' = CHR '':''" "ascii_lower CHR ''Z'' = CHR ''z''"
  by (simp_all add: ascii_lower_def)


lemma zero_padded_4:
  assumes "1000 \<le> i" "i \<le> 9999"
  shows "zero_padded 4 i =
     [digit_char (nat i div 1000), digit_char (nat i div 100 mod 10),
      digit_char (nat i div 10 mod 10), digit_char (nat i mod 10)]"
proof -
  define n where "n = nat i"
  have n: "1000 \<le> n" "n < 10000" using assms by (simp_all add: n_def)
  have 1: "str_nat n = str_nat (n div 10) @ [digit_char (n mod 10)]"
    using n by (subst str_nat.simps) simp
  have d: "n div 10 div 10 = n div 100" "n div 100 div 10 = n div 1000"
    by (simp_all add: div_mult2_eq [symmetric])
  have q: "\<not> n div 10 < 10" "10 \<le> n div 100" "n div 100 < 100"
    using n by arith+
  have 2: "str_nat (n div 10) = str_nat (n div 100) @ [digit_char (n div 10 mod 10)]"
    using q(1) by (subst str_nat.simps) (simp only: if_False d)
  have 3: "str_nat (n div 100) = [digit_char (n div 1000), digit_char (n div 100 mod 10)]"
    using str_nat_two [OF q(2,3)] by (simp only: d)
  have "str_int i = [digit_char (n div 1000), digit_char (n div 100 mod 10),
      digit_char (n div 10 mod 10), digit_char (n mod 10)]"
    using assms by (simp add: str_int_def n_def [symmetric] 1 2 3)
  then show ?thesis
    by (simp add: zero_padded_def n_def)
qed

lemma literal_same: "literal c (c # rest) = [rest]"
  by (simp add: literal_def)

lemma literal_digit:
  assumes "n < 10" "c \<in> {CHR ''-'', CHR ''T'', CHR '':'', CHR ''Z''}"
  shows "literal c (digit_char n # rest) = []"
  using assms by (auto simp: literal_def digit_char_eq ascii_lower_literals)

lemma int_of_group_2:
  assumes "a < 10" "b < 10"
  shows "int_of_group [digit_char a, digit_char b] = int (10 * a + b)"
  using assms by (simp add: int_of_group_def digit_char_eq)

lemma int_of_group_1:
  assumes "a < 10"
  shows "int_of_group [digit_char a] = int a"
  using assms by (simp add: int_of_group_def digit_char_eq)

lemma int_of_group_4:
  assumes "a < 10" "b < 10" "c < 10" "d < 10"
  shows "int_of_group [digit_char a, digit_char b, digit_char c, digit_char d] =
         int (1000 * a + 100 * b + 10 * c + d)"
  using assms by (simp add: int_of_group_def digit_char_eq)


lemmas group_unfold = group_then_def group_def match_classes_def literal_def int_of_group_def
  digit_char_eq ascii_lower_literals

lemma group_then_m:
  assumes "a < 10" "b < 10" "1 \<le> 10 * a + b" "10 * a + b \<le> 12"
    and "c \<in> {CHR ''-'', CHR ''T'', CHR '':'', CHR ''Z''}"
  shows "group_then re_m c (digit_char a # digit_char b # c # rest) = [(int (10 * a + b), rest)]"
proof -
  from assms have "a = 0 \<or> a = 1" by arith
  then show ?thesis
    using assms by (elim disjE) (auto simp: re_m_def group_unfold)
qed


lemma group_then_d:
  assumes "a < 10" "b < 10" "1 \<le> 10 * a + b" "10 * a + b \<le> 31"
    and "c \<in> {CHR ''-'', CHR ''T'', CHR '':'', CHR ''Z''}"
  shows "group_then re_d c (digit_char a # digit_char b # c # rest) = [(int (10 * a + b), rest)]"
proof -
  from assms have "a = 0 \<or> a = 1 \<or> a = 2 \<or> a = 3" by arith
  then show ?thesis
    using assms by (elim disjE) (auto simp: re_d_def group_unfold)
qed

lemma group_then_H:
  assumes "a < 10" "b < 10" "10 * a + b \<le> 23"
    and "c \<in> {CHR ''-'', CHR ''T'', CHR '':'', CHR ''Z''}"
  shows "group_then re_H c (digit_char a # digit_char b # c # rest) = [(int (10 * a + b), rest)]"
proof -
  from assms have "a = 0 \<or> a = 1 \<or> a = 2" by arith
  then show ?thesis
    using assms by (elim disjE) (auto simp: re_H_def group_unfold)
qed

lemma group_then_M:
  assumes "a < 10" "b < 10" "10 * a + b \<le> 59"
    and "c \<in> {CHR ''-'', CHR ''T'', CHR '':'', CHR ''Z''}"
  shows "group_then re_M c (digit_char a # digit_char b # c # rest) = [(int (10 * a + b), rest)]"
proof -
  from assms have "a = 0 \<or> a = 1 \<or> a = 2 \<or> a = 3 \<or> a = 4 \<or> a = 5" by arith
  then show ?thesis
    using assms by (elim disjE) (auto simp: re_M_def group_unfold)
qed

lemma group_then_S:
  assumes "a < 10" "b < 10" "10 * a + b \<le> 59"
    and "c \<in> {CHR ''-'', CHR ''T'', CHR '':'', CHR ''Z''}"
  shows "group_then re_S c (digit_char a # digit_char b # c # rest) = [(int (10 * a + b), rest)]"
proof -
  from assms have "a = 0 \<or> a = 1 \<or> a = 2 \<or> a = 3 \<or> a = 4 \<or> a = 5" by arith
  then show ?thesis
    using assms by (elim disjE) (auto simp: re_S_def group_unfold)
qed

lemma group_then_Y:
  assumes "a < 10" "b < 10" "c < 10" "d < 10"
  shows "group_then re_Y x (digit_char a # digit_char b # digit_char c # digit_char d # x # rest) =
         [(int (1000 * a + 100 * b + 10 * c + d), rest)]"
  using assms digit_char_in [of a] digit_char_in [of b] digit_char_in [of c] digit_char_in [of d]
  by (simp add: re_Y_def group_then_def group_def match_classes_def literal_def int_of_group_def
      digit_char_eq)


lemma group_then_padded:
  fixes v :: int and lo hi :: nat
  assumes g: "\<And>a b. a < 10 \<Longrightarrow> b < 10 \<Longrightarrow> lo \<le> 10 * a + b \<Longrightarrow> 10 * a + b \<le> hi \<Longrightarrow>
                 group_then re c (digit_char a # digit_char b # c # rest) = [(int (10 * a + b), rest)]"
    and v: "int lo \<le> v" "v \<le> int hi" and hi: "hi < 100"
  shows "group_then re c (zero_padded 2 v @ c # rest) = [(v, rest)]"
proof -
  define n where "n = nat v"
  have nv: "int n = v" using v by (simp add: n_def)
  have n: "lo \<le> n" "n \<le> hi" using v by (simp_all add: n_def)
  with hi have "n < 100" by simp
  then have d: "n div 10 < 10" "n mod 10 < 10" by simp_all
  have e: "10 * (n div 10) + n mod 10 = n" by simp
  have z: "zero_padded 2 v = [digit_char (n div 10), digit_char (n mod 10)]"
    unfolding n_def using v hi by (intro zero_padded_2) simp_all
  have "group_then re c (digit_char (n div 10) # digit_char (n mod 10) # c # rest) =
        [(int (10 * (n div 10) + n mod 10), rest)]"
    by (rule g [OF d]) (simp_all only: e n)
  then show ?thesis
    by (simp only: z e nv append.simps)
qed

lemma iso_matches_strftime:
  assumes v: "valid_datetime dt" and y: "1000 \<le> year dt"
  shows "iso_matches (strftime_iso dt) =
         [((year dt, month dt, day dt, hour dt, minute dt, second dt), [])]"
proof -
  from v have r: "year dt \<le> 9999" "1 \<le> month dt" "month dt \<le> 12" "1 \<le> day dt"
    "day dt \<le> days_in_month (year dt) (month dt)"
    "0 \<le> hour dt" "hour dt < 24" "0 \<le> minute dt" "minute dt < 60" "0 \<le> second dt" "second dt < 60"
    by (simp_all add: valid_datetime_def valid_date_def)
  from r(2,3,5) days_in_month_le [of "month dt" "year dt"] have d31: "day dt \<le> 31" by simp
  define n where "n = nat (year dt)"
  have nn: "1000 \<le> n" "n < 10000" using y r(1) by (simp_all add: n_def)
  have n: "n div 1000 < 10" "n div 100 mod 10 < 10" "n div 10 mod 10 < 10" "n mod 10 < 10"
    using nn by simp_all
  have ny: "int (1000 * (n div 1000) + 100 * (n div 100 mod 10) + 10 * (n div 10 mod 10) + n mod 10) = year dt"
  proof -
    have a: "n = 10 * (n div 10) + n mod 10" by simp
    have b: "n div 10 = 10 * (n div 100) + n div 10 mod 10"
      using div_mult_mod_eq [of "n div 10" 10] by (simp add: div_mult2_eq [symmetric])
    have c: "n div 100 = 10 * (n div 1000) + n div 100 mod 10"
      using div_mult_mod_eq [of "n div 100" 10] by (simp add: div_mult2_eq [symmetric])
    have "1000 * (n div 1000) + 100 * (n div 100 mod 10) + 10 * (n div 10 mod 10) + n mod 10 = n"
      using a b c by linarith
    with y show ?thesis by (simp only: n_def) simp
  qed
  have zy: "zero_padded 4 (year dt) = [digit_char (n div 1000), digit_char (n div 100 mod 10),
      digit_char (n div 10 mod 10), digit_char (n mod 10)]"
    unfolding n_def using y r(1) by (rule zero_padded_4)
  have Y: "group_then re_Y CHR ''-'' (zero_padded 4 (year dt) @ CHR ''-'' # rest) = [(year dt, rest)]" for rest
    using group_then_Y [OF n, of "CHR ''-''" rest] by (simp only: zy ny append.simps)
  have m: "group_then re_m CHR ''-'' (zero_padded 2 (month dt) @ CHR ''-'' # rest) = [(month dt, rest)]" for rest
    by (rule group_then_padded [where lo = 1 and hi = 12]) (use r in \<open>simp_all add: group_then_m\<close>)
  have d: "group_then re_d CHR ''T'' (zero_padded 2 (day dt) @ CHR ''T'' # rest) = [(day dt, rest)]" for rest
    by (rule group_then_padded [where lo = 1 and hi = 31]) (use r(4) d31 in \<open>simp_all add: group_then_d\<close>)
  have H: "group_then re_H CHR '':'' (zero_padded 2 (hour dt) @ CHR '':'' # rest) = [(hour dt, rest)]" for rest
    by (rule group_then_padded [where lo = 0 and hi = 23]) (use r(6,7) in \<open>simp_all add: group_then_H\<close>)
  have M: "group_then re_M CHR '':'' (zero_padded 2 (minute dt) @ CHR '':'' # rest) = [(minute dt, rest)]" for rest
    by (rule group_then_padded [where lo = 0 and hi = 59]) (use r(8,9) in \<open>simp_all add: group_then_M\<close>)
  have S: "group_then re_S CHR ''Z'' (zero_padded 2 (second dt) @ CHR ''Z'' # rest) = [(second dt, rest)]" for rest
    by (rule group_then_padded [where lo = 0 and hi = 59]) (use r(10,11) in \<open>simp_all add: group_then_S\<close>)
  have s: "strftime_iso dt =
      zero_padded 4 (year dt) @ CHR ''-'' # zero_padded 2 (month dt) @ CHR ''-'' #
      zero_padded 2 (day dt) @ CHR ''T'' # zero_padded 2 (hour dt) @ CHR '':'' #
      zero_padded 2 (minute dt) @ CHR '':'' # zero_padded 2 (second dt) @ CHR ''Z'' # []"
    by (simp add: strftime_iso_def)
  show ?thesis
    unfolding iso_matches_def s
    by (simp only: Y m d H M S list.map concat.simps append_Nil2 prod.case)
qed

lemma strptime_strftime:
  assumes "valid_datetime dt" and "1000 \<le> year dt"
  shows "strptime_iso (strftime_iso dt) = Inr (dt\<lparr>microsecond := 0, tzinfo := None\<rparr>)"
proof -
  from assms(1) have "\<not> year dt < 1" "\<not> days_in_month (year dt) (month dt) < day dt"
    "\<not> 59 < second dt"
    by (simp_all add: valid_datetime_def valid_date_def)
  then show ?thesis
    by (simp add: strptime_iso_def iso_matches_strftime [OF assms])
qed


section \<open>The time window\<close>
lemma is_digit_digit_char: "n < 10 \<Longrightarrow> is_digit (digit_char n)"
  unfolding is_digit_def by (rule digit_char_in)

lemma two_digits_lt: "0 \<le> (v::int) \<Longrightarrow> v < 100 \<Longrightarrow> nat v div 10 < 10"
  by simp

lemma iso_z_format_strftime:
  assumes v: "valid_datetime dt" and y: "1000 \<le> year dt"
  shows "iso_z_format (strftime_iso dt)"
proof -
  from v have r: "year dt \<le> 9999" "1 \<le> month dt" "month dt \<le> 12" "1 \<le> day dt"
    "day dt \<le> days_in_month (year dt) (month dt)"
    "0 \<le> hour dt" "hour dt < 24" "0 \<le> minute dt" "minute dt < 60" "0 \<le> second dt" "second dt < 60"
    by (simp_all add: valid_datetime_def valid_date_def)
  from r(2,3,5) days_in_month_le [of "month dt" "year dt"] have d31: "day dt \<le> 31" by simp
  have z: "zero_padded 2 (month dt) = [digit_char (nat (month dt) div 10), digit_char (nat (month dt) mod 10)]"
    "zero_padded 2 (day dt) = [digit_char (nat (day dt) div 10), digit_char (nat (day dt) mod 10)]"
    "zero_padded 2 (hour dt) = [digit_char (nat (hour dt) div 10), digit_char (nat (hour dt) mod 10)]"
    "zero_padded 2 (minute dt) = [digit_char (nat (minute dt) div 10), digit_char (nat (minute dt) mod 10)]"
    "zero_padded 2 (second dt) = [digit_char (nat (second dt) div 10), digit_char (nat (second dt) mod 10)]"
    using r d31 by (simp_all add: zero_padded_2)
  have "is_digit (digit_char (nat (month dt) div 10))" "is_digit (digit_char (nat (day dt) div 10))"
    "is_digit (digit_char (nat (hour dt) div 10))" "is_digit (digit_char (nat (minute dt) div 10))"
    "is_digit (digit_char (nat (second dt) div 10))" "is_digit (digit_char (nat (year dt) div 1000))"
    using r d31 by (simp_all add: is_digit_digit_char)
  moreover have "is_digit (digit_char (k mod 10))" for k
    by (simp add: is_digit_digit_char)
  ultimately show ?thesis
    by (simp add: iso_z_format_def strftime_iso_def z zero_padded_4 [OF y r(1)])
qed

lemma toordinal_range:
  assumes v: "valid_datetime dt" and y: "Y \<le> year dt"
  shows "days_before_year Y < toordinal dt" "toordinal dt \<le> MAXORDINAL"
proof -
  from v have r: "1 \<le> month dt" "month dt \<le> 12" "1 \<le> day dt"
    "day dt \<le> days_in_month (year dt) (month dt)" "year dt \<le> 9999"
    by (simp_all add: valid_datetime_def valid_date_def)
  note b = ymd2ord_bounds [OF r(1-4)]
  from y have "days_before_year Y \<le> days_before_year (year dt)"
    by (rule days_before_year_mono)
  with b(1) show "days_before_year Y < toordinal dt"
    by (simp add: toordinal_def)
  from r(5) have "days_before_year (year dt + 1) \<le> days_before_year 10000"
    by (intro days_before_year_mono) simp
  with b(2) show "toordinal dt \<le> MAXORDINAL"
    by (simp add: toordinal_def days_before_year_values)
qed

text \<open>Midnight of the day that lies \<open>k\<close> days after (or, with a negative \<open>k\<close>, before) a midnight.\<close>

lemma midnight_shift:
  assumes v: "valid_datetime dt" and z: "hour dt = 0" "minute dt = 0" "second dt = 0" "microsecond dt = 0"
    and lo: "days_before_year 1000 < toordinal dt + k" and hi: "toordinal dt + k \<le> MAXORDINAL"
  shows "\<exists>r. datetime_add dt \<lparr>days = k, seconds = 0, microseconds = 0\<rparr> = Inr r \<and>
              valid_datetime r \<and> 1000 \<le> year r \<and> tzinfo r = tzinfo dt \<and>
              hour r = 0 \<and> minute r = 0 \<and> second r = 0 \<and> microsecond r = 0 \<and>
              toordinal r = toordinal dt + k"
proof -
  from lo have "0 < toordinal dt + k"
    by (simp add: days_before_year_values)
  from datetime_add_days [OF v this hi] obtain y m d where
    a: "datetime_add dt \<lparr>days = k, seconds = 0, microseconds = 0\<rparr> = Inr (dt\<lparr>year := y, month := m, day := d\<rparr>)"
    and vd: "valid_date y m d" and o: "ymd2ord y m d = toordinal dt + k"
    by blast
  from vd have "1 \<le> m" "m \<le> 12" "1 \<le> d" "d \<le> days_in_month y m"
    by (simp_all add: valid_date_def)
  from ymd2ord_year_ge [OF this, of 1000] lo o have "1000 \<le> y" by simp
  with a vd o v z show ?thesis
    by (simp add: valid_datetime_def toordinal_def)
qed



section \<open>The requested window\<close>

lemma datetime_sub_days:
  assumes "0 \<le> k"
  shows "datetime_sub dt (timedelta_of k 0 0) = datetime_add dt \<lparr>days = - k, seconds = 0, microseconds = 0\<rparr>"
  by (simp add: datetime_sub_def timedelta_of_normal)

lemma today_start_valid:
  assumes "valid_datetime now"
  shows "valid_datetime (now\<lparr>hour := 0, minute := 0, second := 0, microsecond := 0\<rparr>)"
    "toordinal (now\<lparr>hour := 0, minute := 0, second := 0, microsecond := 0\<rparr>) = toordinal now"
  using assms by (simp_all add: valid_datetime_def toordinal_def)

text \<open>The start of the window that lies \<open>k\<close> days before today.\<close>

lemma get_date_range_days:
  assumes v: "valid_datetime now" and tz: "tzinfo now = None" and y: "1970 \<le> year now"
    and k: "0 \<le> k" "k \<le> 29"
    and s: "datetime_sub (now\<lparr>hour := 0, minute := 0, second := 0, microsecond := 0\<rparr>) (timedelta_of k 0 0) = x"
  shows "\<exists>start. x = Inr start \<and> valid_datetime start \<and> 1000 \<le> year start \<and> tzinfo start = None \<and>
           hour start = 0 \<and> minute start = 0 \<and> second start = 0 \<and> microsecond start = 0 \<and>
           toordinal start = toordinal now - k"
proof -
  let ?t = "now\<lparr>hour := 0, minute := 0, second := 0, microsecond := 0\<rparr>"
  note tv = today_start_valid [OF v]
  from toordinal_range [OF v y] have r: "days_before_year 1970 < toordinal now" "toordinal now \<le> MAXORDINAL"
    by simp_all
  have "days_before_year 1970 = 719162"
    by (simp add: days_before_year_def)
  with r k have lo: "days_before_year 1000 < toordinal ?t + - k" and hi: "toordinal ?t + - k \<le> MAXORDINAL"
    by (simp_all add: tv days_before_year_values)
  from midnight_shift [OF tv(1) _ _ _ _ lo hi] s tz show ?thesis
    by (simp add: datetime_sub_days [OF k(1)] tv)
qed

text \<open>The start of the window of a timeframe token, for a reading of the clock from 1970 on.\<close>

lemma get_date_range_start:
  assumes "valid_datetime now" and "tzinfo now = None" and "1970 \<le> year now"
  shows "\<exists>start. get_date_range now timeframe = Inr (strftime_iso start, strftime_iso now) \<and>
           valid_datetime start \<and> 1000 \<le> year start \<and> tzinfo start = None \<and>
           hour start = 0 \<and> minute start = 0 \<and> second start = 0 \<and> microsecond start = 0 \<and>
           toordinal start = toordinal now -
             (if timeframe = ''7days'' then 6 else if timeframe = ''30days'' then 29 else 0) \<and>
           (timeframe \<noteq> ''7days'' \<and> timeframe \<noteq> ''30days'' \<longrightarrow>
              start = now\<lparr>hour := 0, minute := 0, second := 0, microsecond := 0\<rparr>)"
proof -
  let ?t = "now\<lparr>hour := 0, minute := 0, second := 0, microsecond := 0\<rparr>"
  let ?k = "if timeframe = ''7days'' then 6 else if timeframe = ''30days'' then 29 else (0::int)"
  note tv = today_start_valid [OF assms(1)]
  from assms(3) have y: "1000 \<le> year now" by simp
  have "\<exists>start. (if timeframe = ''today'' then Inr ?t
                   else if timeframe = ''7days'' then datetime_sub ?t (timedelta_of 6 0 0)
                   else if timeframe = ''30days'' then datetime_sub ?t (timedelta_of 29 0 0)
                   else Inr ?t) = Inr start \<and>
           valid_datetime start \<and> 1000 \<le> year start \<and> tzinfo start = None \<and>
           hour start = 0 \<and> minute start = 0 \<and> second start = 0 \<and> microsecond start = 0 \<and>
           toordinal start = toordinal now - ?k \<and>
           (timeframe \<noteq> ''7days'' \<and> timeframe \<noteq> ''30days'' \<longrightarrow> start = ?t)"
  proof (cases "timeframe = ''7days''")
    case True
    from get_date_range_days [OF assms, of 6, OF _ _ refl] True show ?thesis by simp
  next
    case n7: False
    show ?thesis
    proof (cases "timeframe = ''30days''")
      case True
      from get_date_range_days [OF assms, of 29, OF _ _ refl] True show ?thesis by simp
    next
      case False
      with n7 tv y assms(2) show ?thesis
        by simp
    qed
  qed
  then obtain start where st: "(if timeframe = ''today'' then Inr ?t
                   else if timeframe = ''7days'' then datetime_sub ?t (timedelta_of 6 0 0)
                   else if timeframe = ''30days'' then datetime_sub ?t (timedelta_of 29 0 0)
                   else Inr ?t) = Inr start"
    and r: "valid_datetime start \<and> 1000 \<le> year start \<and> tzinfo start = None \<and>
           hour start = 0 \<and> minute start = 0 \<and> second start = 0 \<and> microsecond start = 0 \<and>
           toordinal start = toordinal now - ?k \<and>
           (timeframe \<noteq> ''7days'' \<and> timeframe \<noteq> ''30days'' \<longrightarrow> start = ?t)"
    by blast
  have "get_date_range now timeframe = Inr (strftime_iso start, strftime_iso now)"
    unfolding get_date_range_def Let_def st by simp
  with r show ?thesis
    by blast
qed

text \<open>
  C9: for a reading of the clock from 1970 on, the window of \<open>today\<close> and of any
  unrecognised token starts at the midnight of today, the window of \<open>7days\<close> at the
  midnight 6 days before today and the window of \<open>30days\<close> at the midnight 29 days
  before today; it ends now; no error is raised; and both bounds have the shape
  \<^verbatim>\<open>YYYY-MM-DDTHH:MM:SSZ\<close> and parse back to the start and to now, cut to the second.
\<close>

theorem get_date_range_window:
  assumes "valid_datetime now" and "tzinfo now = None" and "1970 \<le> year now"
  shows "\<exists>start. get_date_range now timeframe = Inr (strftime_iso start, strftime_iso now) \<and>
           valid_datetime start \<and> tzinfo start = None \<and>
           hour start = 0 \<and> minute start = 0 \<and> second start = 0 \<and> microsecond start = 0 \<and>
           toordinal start = toordinal now -
             (if timeframe = ''7days'' then 6 else if timeframe = ''30days'' then 29 else 0) \<and>
           (timeframe \<noteq> ''7days'' \<and> timeframe \<noteq> ''30days'' \<longrightarrow>
              start = now\<lparr>hour := 0, minute := 0, second := 0, microsecond := 0\<rparr>) \<and>
           iso_z_format (strftime_iso start) \<and> iso_z_format (strftime_iso now) \<and>
           strptime_iso (strftime_iso start) = Inr start \<and>
           strptime_iso (strftime_iso now) = Inr (now\<lparr>microsecond := 0\<rparr>)"
proof -
  let ?k = "if timeframe = ''7days'' then 6 else if timeframe = ''30days'' then 29 else (0::int)"
  from assms(3) have y: "1000 \<le> year now" by simp
  have n: "iso_z_format (strftime_iso now)" "strptime_iso (strftime_iso now) = Inr (now\<lparr>microsecond := 0\<rparr>)"
    using iso_z_format_strftime [OF assms(1) y] strptime_strftime [OF assms(1) y] assms(2)
    by simp_all
  from get_date_range_start [OF assms, of timeframe] obtain start where
    g: "get_date_range now timeframe = Inr (strftime_iso start, strftime_iso now)"
    and sv: "valid_datetime start" "1000 \<le> year start" and stz: "tzinfo start = None"
    and sz: "hour start = 0" "minute start = 0" "second start = 0" "microsecond start = 0"
    and so: "toordinal start = toordinal now - ?k"
    and se: "timeframe \<noteq> ''7days'' \<and> timeframe \<noteq> ''30days'' \<longrightarrow>
               start = now\<lparr>hour := 0, minute := 0, second := 0, microsecond := 0\<rparr>"
    by blast
  have p: "strptime_iso (strftime_iso start) = Inr start"
    using strptime_strftime [OF sv] stz sz(4) by simp
  from g sv(1) stz sz so se iso_z_format_strftime [OF sv] n p show ?thesis
    by blast
qed

text \<open>The clock at 14:30 and a half second on 2 March 2025.\<close>

theorem get_date_range_window_witness:
  "valid_datetime \<lparr>year = 2025, month = 3, day = 2, hour = 14, minute = 30, second = 0,
                    microsecond = 500000, tzinfo = None\<rparr> \<and>
   get_date_range \<lparr>year = 2025, month = 3, day = 2, hour = 14, minute = 30, second = 0,
                    microsecond = 500000, tzinfo = None\<rparr> ''today'' =
     Inr (''2025-03-02T00:00:00Z'', ''2025-03-02T14:30:00Z'') \<and>
   get_date_range \<lparr>year = 2025, month = 3, day = 2, hour = 14, minute = 30, second = 0,
                    microsecond = 500000, tzinfo = None\<rparr> ''7days'' =
     Inr (''2025-02-24T00:00:00Z'', ''2025-03-02T14:30:00Z'') \<and>
   get_date_range \<lparr>year = 2025, month = 3, day = 2, hour = 14, minute = 30, second = 0,
                    microsecond = 500000, tzinfo = None\<rparr> ''30days'' =
     Inr (''2025-02-01T00:00:00Z'', ''2025-03-02T14:30:00Z'') \<and>
   get_date_range \<lparr>year = 2025, month = 3, day = 2, hour = 14, minute = 30, second = 0,
                    microsecond = 500000, tzinfo = None\<rparr> ''yesterday'' =
     Inr (''2025-03-02T00:00:00Z'', ''2025-03-02T14:30:00Z'') \<and>
   (\<exists>start. strftime_iso start = ''2025-02-24T00:00:00Z'' \<and>
      toordinal start =
        toordinal \<lparr>year = 2025, month = 3, day = 2, hour = 14, minute = 30, second = 0,
                   microsecond = 500000, tzinfo = None\<rparr> - 6 \<and>
      strptime_iso ''2025-02-24T00:00:00Z'' = Inr start)"
  (is "valid_datetime ?now \<and> _")
proof -
  have v: "valid_datetime ?now" by code_simp
  have t: "get_date_range ?now ''today'' = Inr (''2025-03-02T00:00:00Z'', ''2025-03-02T14:30:00Z'')"
    by code_simp
  have w: "get_date_range ?now ''7days'' = Inr (''2025-02-24T00:00:00Z'', ''2025-03-02T14:30:00Z'')"
    by code_simp
  have m: "get_date_range ?now ''30days'' = Inr (''2025-02-01T00:00:00Z'', ''2025-03-02T14:30:00Z'')"
    by code_simp
  have u: "get_date_range ?now ''yesterday'' = Inr (''2025-03-02T00:00:00Z'', ''2025-03-02T14:30:00Z'')"
    by code_simp
  from get_date_range_window [OF v, of "''7days''"] obtain start where
    "get_date_range ?now ''7days'' = Inr (strftime_iso start, strftime_iso ?now)"
    "toordinal start = toordinal ?now - 6" "strptime_iso (strftime_iso start) = Inr start"
    by auto
  with w have "strftime_iso start = ''2025-02-24T00:00:00Z'' \<and> toordinal start = toordinal ?now - 6 \<and>
      strptime_iso ''2025-02-24T00:00:00Z'' = Inr start"
    by simp
  then have "\<exists>start. strftime_iso start = ''2025-02-24T00:00:00Z'' \<and> toordinal start = toordinal ?now - 6 \<and>
      strptime_iso ''2025-02-24T00:00:00Z'' = Inr start" ..
  with v t w m u show ?thesis by simp
qed


section \<open>The window of the cost report\<close>

lemma instant_midnight_le:
  assumes "valid_datetime s"
  shows "instant (s\<lparr>hour := 0, minute := 0, second := 0, microsecond := 0, tzinfo := None\<rparr>) \<le> instant s"
  using assms by (simp add: instant_def toordinal_def valid_datetime_def)

lemma instant_next_midnight:
  assumes "valid_datetime e" and "hour E = 0" "minute E = 0" "second E = 0" "microsecond E = 0"
    and "toordinal E = toordinal e + 1"
  shows "instant e < instant E"
proof -
  from assms(1) have "hour e * 3600 + minute e * 60 + second e \<le> 86399" "microsecond e \<le> 999999"
    by (simp_all add: valid_datetime_def)
  then have "(hour e * 3600 + minute e * 60 + second e) * 1000000 + microsecond e < 86400 * 1000000"
    by simp
  then show ?thesis
    by (simp add: instant_def assms(2-6) algebra_simps)
qed

text \<open>The window of the cost report for the serialised bounds of a requested window.\<close>

lemma cost_window_widened:
  assumes vs: "valid_datetime s" and ve: "valid_datetime e"
    and ys: "1000 \<le> year s" and ye: "1000 \<le> year e" and hi: "toordinal e < MAXORDINAL"
  shows "\<exists>E. cost_window (strftime_iso s) (strftime_iso e) =
                Inr (strftime_iso (s\<lparr>hour := 0, minute := 0, second := 0, microsecond := 0, tzinfo := None\<rparr>),
                     strftime_iso E) \<and>
              valid_datetime E \<and> 1000 \<le> year E \<and> tzinfo E = None \<and>
              hour E = 0 \<and> minute E = 0 \<and> second E = 0 \<and> microsecond E = 0 \<and>
              toordinal E = toordinal e + 1"
proof -
  let ?e = "e\<lparr>microsecond := 0, tzinfo := None\<rparr>"
  from ve have v: "valid_datetime ?e" and o: "toordinal ?e = toordinal e"
    by (simp_all add: valid_datetime_def toordinal_def)
  from toordinal_range(1) [OF ve ye] have lo: "days_before_year 1000 < toordinal ?e + 1"
    by (simp add: o)
  then have "0 < toordinal ?e + 1"
    by (simp add: days_before_year_values)
  moreover from hi have "toordinal ?e + 1 \<le> MAXORDINAL"
    by (simp add: o)
  ultimately obtain y m d where
    a: "datetime_add ?e \<lparr>days = 1, seconds = 0, microseconds = 0\<rparr> = Inr (?e\<lparr>year := y, month := m, day := d\<rparr>)"
    and vd: "valid_date y m d" and od: "ymd2ord y m d = toordinal ?e + 1"
    using datetime_add_days [OF v, of 1] by blast
  from vd have "1 \<le> m" "m \<le> 12" "1 \<le> d" "d \<le> days_in_month y m"
    by (simp_all add: valid_date_def)
  from ymd2ord_year_ge [OF this, of 1000] lo od have y: "1000 \<le> y" by simp
  let ?E = "?e\<lparr>year := y, month := m, day := d, hour := 0, minute := 0, second := 0\<rparr>"
  have td: "timedelta_of 1 0 0 = \<lparr>days = 1, seconds = 0, microseconds = 0\<rparr>"
    by (simp add: timedelta_of_normal)
  have "cost_window (strftime_iso s) (strftime_iso e) =
      Inr (strftime_iso (s\<lparr>microsecond := 0, tzinfo := None, hour := 0, minute := 0, second := 0\<rparr>),
           strftime_iso ?E)"
    by (simp only: cost_window_def strptime_strftime [OF vs ys] strptime_strftime [OF ve ye]
        td a sum.case Let_def)
  also have "strftime_iso (s\<lparr>microsecond := 0, tzinfo := None, hour := 0, minute := 0, second := 0\<rparr>) =
      strftime_iso (s\<lparr>hour := 0, minute := 0, second := 0, microsecond := 0, tzinfo := None\<rparr>)"
    by (simp add: strftime_iso_def)
  finally have "cost_window (strftime_iso s) (strftime_iso e) =
      Inr (strftime_iso (s\<lparr>hour := 0, minute := 0, second := 0, microsecond := 0, tzinfo := None\<rparr>),
           strftime_iso ?E)" .
  moreover have "valid_datetime ?E" "toordinal ?E = toordinal e + 1"
    using vd od o by (simp_all add: valid_datetime_def toordinal_def)
  ultimately show ?thesis
    using y by (intro exI [of _ ?E]) simp
qed

text \<open>
  C5: for a requested window whose bounds are serialised datetimes from the year 1000
  on, with the end before the last day of the calendar, the cost fetcher asks for the
  window from the midnight of the day of the start to the midnight of the day after the
  day of the end; both parse back to these midnights, and the widened window contains
  the requested one.
\<close>

theorem cost_window_contains:
  assumes "valid_datetime s" and "valid_datetime e"
    and "1000 \<le> year s" and "1000 \<le> year e" and "toordinal e < MAXORDINAL"
  shows "\<exists>S E. cost_window (strftime_iso s) (strftime_iso e) = Inr (strftime_iso S, strftime_iso E) \<and>
           S = s\<lparr>hour := 0, minute := 0, second := 0, microsecond := 0, tzinfo := None\<rparr> \<and>
           valid_datetime E \<and> tzinfo E = None \<and>
           hour E = 0 \<and> minute E = 0 \<and> second E = 0 \<and> microsecond E = 0 \<and>
           toordinal S = toordinal s \<and> toordinal E = toordinal e + 1 \<and>
           strptime_iso (strftime_iso S) = Inr S \<and> strptime_iso (strftime_iso E) = Inr E \<and>
           instant S \<le> instant s \<and> instant e < instant E"
proof -
  let ?S = "s\<lparr>hour := 0, minute := 0, second := 0, microsecond := 0, tzinfo := None\<rparr>"
  from cost_window_widened [OF assms] obtain E where
    w: "cost_window (strftime_iso s) (strftime_iso e) = Inr (strftime_iso ?S, strftime_iso E)"
    and v: "valid_datetime E" "1000 \<le> year E" and tz: "tzinfo E = None"
    and z: "hour E = 0" "minute E = 0" "second E = 0" "microsecond E = 0"
    and o: "toordinal E = toordinal e + 1"
    by blast
  from assms(1,3) have vS: "valid_datetime ?S" "1000 \<le> year ?S"
    by (simp_all add: valid_datetime_def)
  have "toordinal ?S = toordinal s"
    by (simp add: toordinal_def)
  moreover have "strptime_iso (strftime_iso ?S) = Inr ?S"
    using strptime_strftime [OF vS] by simp
  moreover have "strptime_iso (strftime_iso E) = Inr E"
    using strptime_strftime [OF v] tz z(4) by simp
  moreover note instant_midnight_le [OF assms(1)] instant_next_midnight [OF assms(2) z o]
  ultimately show ?thesis
    using w v(1) tz z o by blast
qed


text \<open>
  A start on Christmas morning and an end in the last second of 2024: the widened window
  runs from the midnight of 25 December to the midnight of New Year's Day.
\<close>

theorem cost_window_contains_witness:
  "valid_datetime \<lparr>year = 2024, month = 12, day = 25, hour = 9, minute = 15, second = 20,
                    microsecond = 7, tzinfo = None\<rparr> \<and>
   valid_datetime \<lparr>year = 2024, month = 12, day = 31, hour = 23, minute = 59, second = 59,
                    microsecond = 999999, tzinfo = None\<rparr> \<and>
   toordinal \<lparr>year = 2024, month = 12, day = 31, hour = 23, minute = 59, second = 59,
               microsecond = 999999, tzinfo = None\<rparr> < MAXORDINAL \<and>
   cost_window ''2024-12-25T09:15:20Z'' ''2024-12-31T23:59:59Z'' =
     Inr (''2024-12-25T00:00:00Z'', ''2025-01-01T00:00:00Z'') \<and>
   (\<exists>E. strftime_iso E = ''2025-01-01T00:00:00Z'' \<and>
      strptime_iso ''2025-01-01T00:00:00Z'' = Inr E \<and>
      toordinal E = toordinal \<lparr>year = 2024, month = 12, day = 31, hour = 23, minute = 59, second = 59,
                                microsecond = 999999, tzinfo = None\<rparr> + 1 \<and>
      instant \<lparr>year = 2024, month = 12, day = 31, hour = 23, minute = 59, second = 59,
                microsecond = 999999, tzinfo = None\<rparr> < instant E)"
  (is "valid_datetime ?s \<and> valid_datetime ?e \<and> _")
proof -
  have vs: "valid_datetime ?s" and ve: "valid_datetime ?e" and hi: "toordinal ?e < MAXORDINAL"
    by code_simp+
  have fs: "strftime_iso ?s = ''2024-12-25T09:15:20Z''" and fe: "strftime_iso ?e = ''2024-12-31T23:59:59Z''"
    by code_simp+
  have w: "cost_window ''2024-12-25T09:15:20Z'' ''2024-12-31T23:59:59Z'' =
      Inr (''2024-12-25T00:00:00Z'', ''2025-01-01T00:00:00Z'')"
    by code_simp
  from cost_window_contains [OF vs ve _ _ hi] obtain E where
    "cost_window (strftime_iso ?s) (strftime_iso ?e) =
       Inr (strftime_iso (?s\<lparr>hour := 0, minute := 0, second := 0, microsecond := 0, tzinfo := None\<rparr>),
            strftime_iso E)"
    "strptime_iso (strftime_iso E) = Inr E" "toordinal E = toordinal ?e + 1" "instant ?e < instant E"
    by auto
  with w have "strftime_iso E = ''2025-01-01T00:00:00Z'' \<and> strptime_iso ''2025-01-01T00:00:00Z'' = Inr E \<and>
      toordinal E = toordinal ?e + 1 \<and> instant ?e < instant E"
    unfolding fs fe by simp
  then have "\<exists>E. strftime_iso E = ''2025-01-01T00:00:00Z'' \<and> strptime_iso ''2025-01-01T00:00:00Z'' = Inr E \<and>
      toordinal E = toordinal ?e + 1 \<and> instant ?e < instant E" ..
  with vs ve hi w show ?thesis by simp
qed


section \<open>A failure of the cost report\<close>

lemma total_cost_of_rows:
  "total_cost_of cost_data =
     fold (\<lambda>item acc. float_add acc (dict_get (amount item) (Finite 0))) (cost_rows cost_data) (Finite 0)"
  by (simp add: total_cost_of_def cost_rows_def fold_concat_map)

lemma total_cost_of_Nil: "total_cost_of [] = Finite 0"
  by (simp add: total_cost_of_def)

text \<open>Without cost data the report is the one of any cost data, with the cost 0.0.\<close>

lemma combine_data_no_cost:
  "combine_data mu ku [] =
     (combine_data mu ku cd)\<lparr>total := (total (combine_data mu ku cd))\<lparr>cost_usd := Finite 0\<rparr>\<rparr>"
  by (simp add: combine_data_def Let_def total_cost_of_Nil)

text \<open>A failure of the request of the cost report is caught.\<close>

lemma fetch_cost_failure:
  assumes "cost_window start_date end_date = Inr (a, b)" and "cost_report api a b = Inl err"
  shows "fetch_cost api start_date end_date = Inr []"
  using assms by (simp add: fetch_cost_def)

text \<open>
  C6: for a reading of the clock from 1970 to the day before the last of the calendar,
  when the two usage reports are answered and the request of the cost report fails,
  with whatever exception, \<^verbatim>\<open>_fetch_cost\<close> returns the empty list and \<^verbatim>\<open>get_usage\<close> returns
  a report: the one of the usage rows, its token totals the sums over the rows and the
  cost of its grand total 0.0; it is the report of any cost data but for that cost.
  Whatever the cost data, their sum is the cost of the grand total, and the cost of
  every model summary and of every key summary is 0.0.
\<close>

theorem cost_failure_degrades:
  assumes "valid_datetime now" and "tzinfo now = None" and "1970 \<le> year now"
    and "toordinal now < MAXORDINAL"
    and "get_date_range now timeframe = Inr (start_date, end_date)"
    and "usage_report api start_date end_date ''model'' = Inr mu"
    and "usage_report api start_date end_date ''api_key_id'' = Inr ku"
    and "\<And>a b. cost_window start_date end_date = Inr (a, b) \<Longrightarrow> \<exists>err. cost_report api a b = Inl err"
  shows "\<exists>r. fetch_cost api start_date end_date = Inr [] \<and>
           get_usage api now timeframe = Inr (Some r) \<and>
           r = combine_data (dict_get mu []) (dict_get ku []) [] \<and>
           cost_usd (total r) = Finite 0 \<and>
           input_tokens (total r) = (\<Sum>x\<leftarrow>bucket_rows (dict_get mu []). model_item_input x) \<and>
           output_tokens (total r) =
             (\<Sum>x\<leftarrow>bucket_rows (dict_get mu []). dict_get (item_output_tokens x) 0) \<and>
           total_tokens (total r) = input_tokens (total r) + output_tokens (total r) \<and>
           r = (combine_data (dict_get mu []) (dict_get ku []) cost_data)
                 \<lparr>total := (total (combine_data (dict_get mu []) (dict_get ku []) cost_data))
                              \<lparr>cost_usd := Finite 0\<rparr>\<rparr> \<and>
           cost_usd (total (combine_data model_usage key_usage cost_data)) =
             fold (\<lambda>item acc. float_add acc (dict_get (amount item) (Finite 0)))
               (cost_rows cost_data) (Finite 0) \<and>
           (\<forall>m\<in>set (by_model (combine_data model_usage key_usage cost_data)).
              cost_usd (ModelUsage.usage m) = Finite 0) \<and>
           (\<forall>k\<in>set (by_key (combine_data model_usage key_usage cost_data)).
              cost_usd (ApiKeyUsage.usage k) = Finite 0)"
proof -
  let ?r = "combine_data (dict_get mu []) (dict_get ku []) []"
  from get_date_range_start [OF assms(1-3), of timeframe] assms(5) obtain start where
    sd: "start_date = strftime_iso start" "end_date = strftime_iso now"
    and sv: "valid_datetime start" "1000 \<le> year start"
    by auto
  from assms(3) have y: "1000 \<le> year now" by simp
  from cost_window_widened [OF sv(1) assms(1) sv(2) y assms(4)] obtain a b where
    w: "cost_window start_date end_date = Inr (a, b)"
    unfolding sd by blast
  from assms(8) [OF w] obtain err where "cost_report api a b = Inl err" ..
  with w have f: "fetch_cost api start_date end_date = Inr []"
    by (rule fetch_cost_failure)
  have g: "get_usage api now timeframe = Inr (Some ?r)"
    by (simp add: get_usage_def assms(5-7) fetch_usage_def f)
  have c: "cost_usd (total ?r) = Finite 0"
    by (simp add: total_fields total_cost_of_Nil)
  have t: "input_tokens (total ?r) = (\<Sum>x\<leftarrow>bucket_rows (dict_get mu []). model_item_input x)"
    "output_tokens (total ?r) = (\<Sum>x\<leftarrow>bucket_rows (dict_get mu []). dict_get (item_output_tokens x) 0)"
    "total_tokens (total ?r) = input_tokens (total ?r) + output_tokens (total ?r)"
    by (simp_all only: total_fields)
  have s: "cost_usd (total (combine_data model_usage key_usage cost_data)) =
      fold (\<lambda>item acc. float_add acc (dict_get (amount item) (Finite 0))) (cost_rows cost_data) (Finite 0)"
    by (simp only: total_fields total_cost_of_rows)
  have m: "\<forall>m\<in>set (by_model (combine_data model_usage key_usage cost_data)).
      cost_usd (ModelUsage.usage m) = Finite 0"
    using by_model_entry by blast
  have k: "\<forall>k\<in>set (by_key (combine_data model_usage key_usage cost_data)).
      cost_usd (ApiKeyUsage.usage k) = Finite 0"
    using by_key_entry by blast
  from f g c t combine_data_no_cost [of "dict_get mu []" "dict_get ku []" cost_data] s m k
  show ?thesis
    by blast
qed


text \<open>
  At 14:30 on 2 March 2025 the service answers both usage reports with one row of an
  Opus model without key, and refuses the cost report.
\<close>

theorem cost_failure_degrades_witness:
  "get_usage
     \<lparr>usage_report = (\<lambda>starting_at ending_at group_by. Inr (Some
        [\<lparr>results = Some
            [\<lparr>item_model = Some ''claude-opus-4-20250514'', item_api_key_id = None,
              item_uncached_input_tokens = Some 10, item_cache_read_input_tokens = Some 5,
              item_cache_creation = Some \<lparr>ephemeral_1h_input_tokens = Some 100,
                                           ephemeral_5m_input_tokens = Some 200\<rparr>,
              item_output_tokens = Some 3\<rparr>]\<rparr>])),
      cost_report = (\<lambda>starting_at ending_at. Inl RequestException)\<rparr>
     \<lparr>year = 2025, month = 3, day = 2, hour = 14, minute = 30, second = 0,
      microsecond = 500000, tzinfo = None\<rparr> ''today'' =
   Inr (Some
     \<lparr>total = \<lparr>input_tokens = 315, output_tokens = 3, total_tokens = 318, cost_usd = Finite 0\<rparr>,
      by_model = [\<lparr>model = ''Opus'',
                   usage = \<lparr>input_tokens = 315, output_tokens = 3, total_tokens = 318,
                            cost_usd = Finite 0\<rparr>\<rparr>],
      by_key = [\<lparr>key_id = ''workbench'', key_hint = ''Workbench'',
                 usage = \<lparr>input_tokens = 15, output_tokens = 3, total_tokens = 18,
                          cost_usd = Finite 0\<rparr>\<rparr>]\<rparr>) \<and>
   fetch_cost
     \<lparr>usage_report = (\<lambda>starting_at ending_at group_by. Inr (Some
        [\<lparr>results = Some
            [\<lparr>item_model = Some ''claude-opus-4-20250514'', item_api_key_id = None,
              item_uncached_input_tokens = Some 10, item_cache_read_input_tokens = Some 5,
              item_cache_creation = Some \<lparr>ephemeral_1h_input_tokens = Some 100,
                                           ephemeral_5m_input_tokens = Some 200\<rparr>,
              item_output_tokens = Some 3\<rparr>]\<rparr>])),
      cost_report = (\<lambda>starting_at ending_at. Inl RequestException)\<rparr>
     ''2025-03-02T00:00:00Z'' ''2025-03-02T14:30:00Z'' = Inr []"
  (is "get_usage ?api ?now ''today'' = Inr (Some ?report) \<and> _")
proof -
  let ?rows = "[\<lparr>results = Some
            [\<lparr>item_model = Some ''claude-opus-4-20250514'', item_api_key_id = None,
              item_uncached_input_tokens = Some 10, item_cache_read_input_tokens = Some 5,
              item_cache_creation = Some \<lparr>ephemeral_1h_input_tokens = Some 100,
                                           ephemeral_5m_input_tokens = Some 200\<rparr>,
              item_output_tokens = Some 3\<rparr>]\<rparr>]"
  have v: "valid_datetime ?now" and hi: "toordinal ?now < MAXORDINAL"
    by code_simp+
  have g: "get_date_range ?now ''today'' = Inr (''2025-03-02T00:00:00Z'', ''2025-03-02T14:30:00Z'')"
    by code_simp
  have r: "combine_data ?rows ?rows [] = ?report"
    by code_simp
  from cost_failure_degrades [of ?now "''today''" "''2025-03-02T00:00:00Z''" "''2025-03-02T14:30:00Z''"
      ?api "Some ?rows" "Some ?rows", OF v _ _ hi g]
  have "fetch_cost ?api ''2025-03-02T00:00:00Z'' ''2025-03-02T14:30:00Z'' = Inr [] \<and>
      get_usage ?api ?now ''today'' = Inr (Some (combine_data ?rows ?rows []))"
    by (simp add: dict_get_simps)
  with r show ?thesis
    by simp
qed

text \<open>
  On the last day of the calendar the day after the end does not exist: the addition
  raises \<^verbatim>\<open>OverflowError\<close> before the \<^verbatim>\<open>try\<close> of \<^verbatim>\<open>_fetch_cost\<close>, whatever the service
  answers.
\<close>

lemma fetch_cost_last_day:
  "fetch_cost api ''9999-12-31T00:00:00Z'' ''9999-12-31T12:00:00Z'' = Inl OverflowError"
proof -
  have "cost_window ''9999-12-31T00:00:00Z'' ''9999-12-31T12:00:00Z'' = Inl OverflowError"
    by code_simp
  then show ?thesis
    by (simp add: fetch_cost_def)
qed

end
